theory Spec2Isabelle
  imports Complex_Main "HOL-Library.AList"
begin

text \<open>
  The circuit editor of Dynamica keeps a list of two-terminal components on a canvas. Before
  it hands the circuit to the analysis page, \<^verbatim>\<open>analysisController\<close> normalises the sources,
  clusters the terminals into nodes, rejects dangling and disconnected circuits and checks
  that every component carries its parameter. This theory embeds these functions, and the
  two other places that settle the unknown flags of a source, and proves what the
  specification says about them.

  A JavaScript number is modelled as an exact real: rounding, infinities and \<^verbatim>\<open>NaN\<close> are not
  modelled.
\<close>

section \<open>Strings\<close>

text \<open>
  A JavaScript string is modelled as a \<^typ>\<open>string\<close>; a \<^typ>\<open>char\<close> stands for the
  code unit of the same number (U+0000 to U+00FF). The component kinds, the generated
  labels and the messages of the validators stay inside this range.
\<close>

text \<open>The white space and line terminators that \<^verbatim>\<open>String.prototype.trim\<close> strips, in range.\<close>

definition isWhiteSpace :: "char \<Rightarrow> bool" where
  "isWhiteSpace c =
     (c = CHR 0x09 \<or> c = CHR 0x0A \<or> c = CHR 0x0B \<or> c = CHR 0x0C \<or> c = CHR 0x0D
      \<or> c = CHR 0x20 \<or> c = CHR 0xA0)"

definition trim :: "string \<Rightarrow> string" where
  "trim s = rev (dropWhile isWhiteSpace (rev (dropWhile isWhiteSpace s)))"

text \<open>\<^verbatim>\<open>toUpperCase\<close> on the letters a to z; every other code unit of the kinds is kept.\<close>

definition toUpperChar :: "char \<Rightarrow> char" where
  "toUpperChar c =
     (let n = (of_char c :: nat) in if 97 \<le> n \<and> n \<le> 122 then char_of (n - 32) else c)"

definition toUpperCase :: "string \<Rightarrow> string" where
  "toUpperCase s = map toUpperChar s"

text \<open>The decimal rendering of a non-negative integer inside a template literal.\<close>

definition digitChar :: "nat \<Rightarrow> char" where
  "digitChar d = char_of (48 + d)"

fun numberToString :: "nat \<Rightarrow> string" where
  "numberToString n =
     (if n < 10 then [digitChar n] else numberToString (n div 10) @ [digitChar (n mod 10)])"

declare numberToString.simps [simp del]

text \<open>\<^verbatim>\<open>Array.prototype.join\<close> on an array of strings.\<close>

fun join :: "string \<Rightarrow> string list \<Rightarrow> string" where
  "join sep [] = []"
| "join sep [s] = s"
| "join sep (s # t # rest) = s @ sep @ join sep (t # rest)"

text \<open>Truthiness of a value that is a string or \<^verbatim>\<open>null\<close>/\<^verbatim>\<open>undefined\<close>.\<close>

definition truthy :: "string option \<Rightarrow> bool" where
  "truthy v = (case v of None \<Rightarrow> False | Some s \<Rightarrow> s \<noteq> [])"

definition isUpperLetter :: "char \<Rightarrow> bool" where
  "isUpperLetter c = (65 \<le> (of_char c :: nat) \<and> (of_char c :: nat) \<le> 90)"

definition isDigit :: "char \<Rightarrow> bool" where
  "isDigit c = (48 \<le> (of_char c :: nat) \<and> (of_char c :: nat) \<le> 57)"

section \<open>Components\<close>

record pin =
  pin_x :: real
  pin_y :: real

datatype direction = a_to_b | b_to_a

datatype polarity = a_positive | b_positive

text \<open>
  \<^verbatim>\<open>ComponentInstance\<close> of \<^verbatim>\<open>componentsInstance\<close>; an optional field that is absent is
  \<^const>\<open>None\<close>. The fields \<^verbatim>\<open>id\<close>, \<^verbatim>\<open>type\<close> and \<^verbatim>\<open>value\<close> carry the suffix \<open>_c\<close>.
\<close>

record ComponentInstance =
  id_c :: string
  type_c :: string
  pinA :: pin
  pinB :: pin
  rotation :: "real option"
  label :: "string option"
  value_c :: "string option"
  valueUnknown :: "bool option"
  current :: "string option"
  currentUnknown :: "bool option"
  voltage :: "string option"
  voltageUnknown :: "bool option"
  sourceDirection :: "direction option"
  sourcePolarity :: "polarity option"

section \<open>Parameter completeness (analysisController)\<close>

definition canonicalLabel :: "ComponentInstance \<Rightarrow> nat \<Rightarrow> string" where
  "canonicalLabel cmp index =
     (let lbl = map_option trim (label cmp) in
      if truthy lbl then the lbl
      else toUpperCase (type_c cmp) @ ''_'' @ numberToString (index + 1))"

text \<open>\<^verbatim>\<open>typeof v === "string" && v.trim() !== ""\<close> on an optional string field.\<close>

definition hasText :: "string option \<Rightarrow> bool" where
  "hasText v = (case v of None \<Rightarrow> False | Some s \<Rightarrow> trim s \<noteq> [])"

definition getMissingParamReason :: "ComponentInstance \<Rightarrow> string option" where
  "getMissingParamReason cmp =
     (if type_c cmp = ''wire'' then None
      else if type_c cmp = ''resistor'' \<or> type_c cmp = ''capacitor''
              \<or> type_c cmp = ''inductor'' then
        (let hasValue = hasText (value_c cmp) in
         if hasValue then None else Some ''valore'')
      else if type_c cmp = ''voltage_source'' then
        (let hasVoltage = hasText (voltage cmp) in
         if voltageUnknown cmp = Some True \<or> \<not> hasVoltage then Some ''tensione'' else None)
      else if type_c cmp = ''current_source'' then
        (let hasCurrent = hasText (current cmp) in
         if currentUnknown cmp = Some True \<or> \<not> hasCurrent then Some ''corrente'' else None)
      else None)"

datatype verdict = Ok | Fail string

definition missingEntry :: "nat \<times> ComponentInstance \<Rightarrow> string option" where
  "missingEntry ic =
     (case ic of (index, cmp) \<Rightarrow>
        (let reason = getMissingParamReason cmp in
         if \<not> truthy reason then None
         else Some (canonicalLabel cmp index @ '' ('' @ the reason @ '')'')))"

definition validateComponentParams :: "ComponentInstance list \<Rightarrow> verdict" where
  "validateComponentParams components =
     (let missing = map the (filter truthy (map missingEntry (enumerate 0 components))) in
      if length missing = 0 then Ok
      else
        (let preview = join '', '' (take 4 missing);
             suffix = (if length missing > 4 then ''...'' else '''')
         in Fail (''Errore parametro mancante: '' @ preview @ suffix @ ''.'')))"

section \<open>Normalisation of the sources for the analysis (analysisController)\<close>

text \<open>\<^verbatim>\<open>!!(v && v.trim() !== "")\<close> on an optional string field.\<close>

definition hasField :: "string option \<Rightarrow> bool" where
  "hasField v = (case v of None \<Rightarrow> False | Some s \<Rightarrow> s \<noteq> [] \<and> trim s \<noteq> [])"

definition normalizeComponent :: "ComponentInstance \<Rightarrow> ComponentInstance" where
  "normalizeComponent cmp =
     (if type_c cmp = ''voltage_source'' then
        (let hasVoltage = hasField (voltage cmp) in
         cmp\<lparr>value_c := None, voltageUnknown := Some (\<not> hasVoltage),
              currentUnknown := Some hasVoltage\<rparr>)
      else if type_c cmp = ''current_source'' then
        (let hasCurrent = hasField (current cmp) in
         cmp\<lparr>value_c := None, currentUnknown := Some (\<not> hasCurrent),
              voltageUnknown := Some hasCurrent\<rparr>)
      else cmp)"

definition normalizeComponentsForAnalysis :: "ComponentInstance list \<Rightarrow> ComponentInstance list" where
  "normalizeComponentsForAnalysis components = map normalizeComponent components"

section \<open>Circuit integrity (analysisController)\<close>

definition CLUSTER_TOLERANCE :: real where
  "CLUSTER_TOLERANCE = 8"

definition tolerance2 :: real where
  "tolerance2 = CLUSTER_TOLERANCE * CLUSTER_TOLERANCE"

record cluster =
  cluster_x :: real
  cluster_y :: real
  cluster_count :: nat

text \<open>
  The loop of \<^verbatim>\<open>assignCluster\<close> from index \<open>i\<close> on. It returns the array of clusters as the
  call leaves it, and the node id.
\<close>

function assignCluster_from :: "nat \<Rightarrow> cluster list \<Rightarrow> real \<Rightarrow> real \<Rightarrow> cluster list \<times> nat" where
  "assignCluster_from i clusters x y =
     (if i < length clusters then
        (let cluster = clusters ! i;
             dx = x - cluster_x cluster;
             dy = y - cluster_y cluster
         in if dx * dx + dy * dy > tolerance2 then assignCluster_from (i + 1) clusters x y
            else
              (let newCount = cluster_count cluster + 1 in
               (clusters[i := \<lparr>cluster_x =
                                 (cluster_x cluster * real (cluster_count cluster) + x) / real newCount,
                               cluster_y =
                                 (cluster_y cluster * real (cluster_count cluster) + y) / real newCount,
                               cluster_count = newCount\<rparr>], i)))
      else (clusters @ [\<lparr>cluster_x = x, cluster_y = y, cluster_count = 1\<rparr>], length clusters))"
  by pat_completeness auto
termination
  by (relation "measure (\<lambda>(i, clusters, x, y). length clusters - i)") auto

declare assignCluster_from.simps [simp del]

definition assignCluster :: "cluster list \<Rightarrow> real \<Rightarrow> real \<Rightarrow> cluster list \<times> nat" where
  "assignCluster clusters x y = assignCluster_from 0 clusters x y"

text \<open>\<^verbatim>\<open>Set.prototype.add\<close> on a set kept as the list of its elements in insertion order.\<close>

definition setAdd :: "nat \<Rightarrow> nat list \<Rightarrow> nat list" where
  "setAdd v s = (if v \<in> set s then s else s @ [v])"

text \<open>
  The local state of \<^verbatim>\<open>validateCircuitIntegrity\<close> while it walks the components; \<open>'c\<close> is what
  the array \<^verbatim>\<open>clusters\<close> holds (clusters, or references to them in a store). The map
  \<^verbatim>\<open>clusterComponents\<close> is iterated later, so it keeps its keys in insertion order; of the map
  \<^verbatim>\<open>terminalCounts\<close> only \<^verbatim>\<open>get\<close> and \<^verbatim>\<open>set\<close> are used. An entry of \<^verbatim>\<open>componentNodes\<close> is the
  pair \<open>(a, b)\<close>.
\<close>

record 'c topology =
  clusters :: "'c list"
  terminalCounts :: "nat \<Rightarrow> nat option"
  clusterComponents :: "(nat \<times> nat list) list"
  componentNodes :: "(nat \<times> nat) list"

definition getCount :: "(nat \<Rightarrow> nat option) \<Rightarrow> nat \<Rightarrow> nat" where
  "getCount counts nodeId = (case counts nodeId of None \<Rightarrow> 0 | Some n \<Rightarrow> n)"

definition incTerminal :: "nat \<Rightarrow> nat \<Rightarrow> 'c topology \<Rightarrow> 'c topology" where
  "incTerminal nodeId compIndex st =
     (let s = (case map_of (clusterComponents st) nodeId of None \<Rightarrow> [] | Some s \<Rightarrow> s) in
      st\<lparr>terminalCounts := (terminalCounts st)(nodeId \<mapsto> getCount (terminalCounts st) nodeId + 1),
         clusterComponents := AList.update nodeId (setAdd compIndex s) (clusterComponents st)\<rparr>)"

definition visitComponent ::
  "nat \<times> ComponentInstance \<Rightarrow> cluster topology \<Rightarrow> cluster topology" where
  "visitComponent ic st =
     (case ic of (index, cmp) \<Rightarrow>
        (case assignCluster (clusters st) (pin_x (pinA cmp)) (pin_y (pinA cmp)) of (cl1, a) \<Rightarrow>
           (case assignCluster cl1 (pin_x (pinB cmp)) (pin_y (pinB cmp)) of (cl2, b) \<Rightarrow>
              incTerminal b index
                (incTerminal a index
                   (st\<lparr>clusters := cl2, componentNodes := componentNodes st @ [(a, b)]\<rparr>)))))"

definition emptyTopology :: "'c topology" where
  "emptyTopology =
     \<lparr>clusters = [], terminalCounts = Map.empty, clusterComponents = [], componentNodes = []\<rparr>"

definition buildTopology :: "ComponentInstance list \<Rightarrow> cluster topology" where
  "buildTopology components = fold visitComponent (enumerate 0 components) emptyTopology"

text \<open>
  One element of the \<^verbatim>\<open>map\<close> that collects the dangling components: \<open>Some None\<close> is
  \<^verbatim>\<open>null\<close>, and the outer \<^const>\<open>None\<close> is the \<^verbatim>\<open>TypeError\<close> of \<^verbatim>\<open>canonicalLabel\<close> on an index
  outside \<^verbatim>\<open>components\<close>.
\<close>

definition danglingEntry ::
  "ComponentInstance list \<Rightarrow> (nat \<Rightarrow> nat option) \<Rightarrow> nat \<times> (nat \<times> nat) \<Rightarrow> string option option" where
  "danglingEntry components counts e =
     (case e of (index, (a, b)) \<Rightarrow>
        (let aCount = getCount counts a; bCount = getCount counts b in
         if aCount < 2 \<or> bCount < 2 then
           (if index < length components
            then Some (Some (canonicalLabel (components ! index) index)) else None)
         else Some None))"

definition danglingComponents ::
  "ComponentInstance list \<Rightarrow> 'c topology \<Rightarrow> string list option" where
  "danglingComponents components st =
     map_option (\<lambda>names. map the (filter truthy names))
       (those (map (danglingEntry components (terminalCounts st))
                 (enumerate 0 (componentNodes st))))"

text \<open>
  The adjacency sets. \<^const>\<open>None\<close> is the \<^verbatim>\<open>TypeError\<close> of \<^verbatim>\<open>adjacency[a].add\<close> on an index
  outside \<^verbatim>\<open>adjacency\<close>.
\<close>

definition addEdge :: "nat \<Rightarrow> nat \<Rightarrow> nat list list \<Rightarrow> nat list list option" where
  "addEdge a b adjacency =
     (if a < length adjacency \<and> b < length adjacency then
        (let adj1 = adjacency[a := setAdd b (adjacency ! a)] in
         Some (adj1[b := setAdd a (adj1 ! b)]))
      else None)"

text \<open>The inner loop over \<open>j\<close>: \<open>a\<close> is \<^verbatim>\<open>ids[i]\<close>, the list holds \<^verbatim>\<open>ids[i+1]\<close> and the rest.\<close>

fun linkFrom :: "nat \<Rightarrow> nat list \<Rightarrow> nat list list \<Rightarrow> nat list list option" where
  "linkFrom a [] adjacency = Some adjacency"
| "linkFrom a (b # rest) adjacency = Option.bind (addEdge a b adjacency) (linkFrom a rest)"

text \<open>The outer loop over \<open>i\<close>.\<close>

fun linkAll :: "nat list \<Rightarrow> nat list list \<Rightarrow> nat list list option" where
  "linkAll [] adjacency = Some adjacency"
| "linkAll (a # rest) adjacency = Option.bind (linkFrom a rest adjacency) (linkAll rest)"

text \<open>\<^verbatim>\<open>clusterComponents.forEach\<close>, in insertion order of the keys.\<close>

fun linkClusters :: "(nat \<times> nat list) list \<Rightarrow> nat list list \<Rightarrow> nat list list option" where
  "linkClusters [] adjacency = Some adjacency"
| "linkClusters ((nodeId, compIds) # rest) adjacency =
     Option.bind (linkAll compIds adjacency) (linkClusters rest)"

definition buildAdjacency ::
  "ComponentInstance list \<Rightarrow> 'c topology \<Rightarrow> nat list list option" where
  "buildAdjacency components st =
     linkClusters (clusterComponents st) (map (\<lambda>_. []) components)"

text \<open>The body of \<^verbatim>\<open>adjacency[current].forEach\<close> on the pair of \<^verbatim>\<open>visited\<close> and \<^verbatim>\<open>queue\<close>.\<close>

definition visitNeighbor :: "nat \<Rightarrow> nat list \<times> nat list \<Rightarrow> nat list \<times> nat list" where
  "visitNeighbor neighbor vq =
     (case vq of (visited, queue) \<Rightarrow>
        if neighbor \<in> set visited then (visited, queue)
        else (setAdd neighbor visited, queue @ [neighbor]))"

text \<open>
  The \<^verbatim>\<open>while\<close> loop of the traversal. \<^const>\<open>None\<close> is the \<^verbatim>\<open>TypeError\<close> of
  \<^verbatim>\<open>adjacency[current].forEach\<close> on an index outside \<^verbatim>\<open>adjacency\<close>.
\<close>

function traverse :: "nat list list \<Rightarrow> nat list \<Rightarrow> nat list \<Rightarrow> nat list option" where
  "traverse adjacency visited [] = Some visited"
| "traverse adjacency visited (cur # queue) =
     (if cur < length adjacency then
        (case fold visitNeighbor (adjacency ! cur) (visited, queue) of
           (visited', queue') \<Rightarrow> traverse adjacency visited' queue')
      else None)"
  by pat_completeness auto
termination traverse
proof (relation "inv_image (less_than <*lex*> less_than)
    (\<lambda>(adjacency, visited, queue). (card (\<Union> (set ` set adjacency) - set visited), length queue))")
  show "wf (inv_image (less_than <*lex*> less_than)
    (\<lambda>(adjacency, visited, queue). (card (\<Union> (set ` set adjacency) - set visited), length queue)))"
    by (intro wf_inv_image wf_lex_prod wf_less_than)
next
  fix adjacency :: "nat list list" and visited cur queue visited' queue'
  assume lt: "cur < length adjacency"
    and vq: "(visited', queue') = fold visitNeighbor (adjacency ! cur) (visited, queue)"
  have grows: "\<exists>added. fold visitNeighbor ns (visited, queue) = (visited @ added, queue @ added)
       \<and> set added = set ns - set visited
       \<and> (distinct visited \<longrightarrow> distinct (visited @ added))"
    for ns :: "nat list" and visited queue
  proof (induction ns arbitrary: visited queue)
    case Nil
    then show ?case by simp
  next
    case (Cons n ns)
    show ?case
    proof (cases "n \<in> set visited")
      case True
      with Cons.IH [of visited queue] show ?thesis
        by (auto simp: visitNeighbor_def)
    next
      case False
      from Cons.IH [of "visited @ [n]" "queue @ [n]"]
      obtain added where a:
        "fold visitNeighbor ns (visited @ [n], queue @ [n]) = ((visited @ [n]) @ added, (queue @ [n]) @ added)"
        "set added = set ns - set (visited @ [n])"
        "distinct (visited @ [n]) \<longrightarrow> distinct ((visited @ [n]) @ added)"
        by blast
      show ?thesis
      proof (intro exI [of _ "n # added"] conjI)
        show "fold visitNeighbor (n # ns) (visited, queue) = (visited @ n # added, queue @ n # added)"
          using False a(1) by (simp add: visitNeighbor_def setAdd_def)
        show "set (n # added) = set (n # ns) - set visited"
          using False a(2) by auto
        show "distinct visited \<longrightarrow> distinct (visited @ n # added)"
          using False a(3) by auto
      qed
    qed
  qed
  obtain added where a:
    "fold visitNeighbor (adjacency ! cur) (visited, queue) = (visited @ added, queue @ added)"
    "set added = set (adjacency ! cur) - set visited"
    using grows by blast
  from vq a(1) have eqs: "visited' = visited @ added" "queue' = queue @ added"
    by simp_all
  let ?U = "\<Union> (set ` set adjacency)"
  have fin: "finite ?U" by simp
  have sub: "set added \<subseteq> ?U"
    using a(2) lt by (auto intro: nth_mem)
  show "((adjacency, visited', queue'), (adjacency, visited, cur # queue))
      \<in> inv_image (less_than <*lex*> less_than)
          (\<lambda>(adjacency, visited, queue).
             (card (\<Union> (set ` set adjacency) - set visited), length queue))"
  proof (cases "added = []")
    case True
    then show ?thesis using eqs by simp
  next
    case False
    then obtain n where n: "n \<in> set added" by (cases added) auto
    with a(2) sub have "n \<in> ?U - set visited" "n \<notin> ?U - set visited'"
      using eqs by auto
    moreover have "?U - set visited' \<subseteq> ?U - set visited"
      using eqs by auto
    ultimately have "?U - set visited' \<subset> ?U - set visited" by blast
    then have "card (?U - set visited') < card (?U - set visited)"
      using fin by (intro psubset_card_mono) auto
    then show ?thesis by simp
  qed
qed

declare traverse.simps [simp del]

definition emptyCircuitMessage :: string where
  "emptyCircuitMessage = ''Circuito vuoto: aggiungi almeno un componente.''"

definition danglingMessage :: "string list \<Rightarrow> string" where
  "danglingMessage dangling =
     (let preview = join '', '' (take 4 dangling);
          suffix = (if length dangling > 4 then ''...'' else [])
      in ''Errore di integrit'' @ [CHR 0xE0] @ '': componenti/rami scoperti (''
           @ preview @ suffix @ '').'')"

definition disconnectedMessage :: string where
  "disconnectedMessage =
     ''Errore di integrit'' @ [CHR 0xE0] @ '': il circuito non '' @ [CHR 0xE8]
       @ '' completamente interconnesso.''"

text \<open>
  \<^verbatim>\<open>validateCircuitIntegrity\<close> after the walk over the components: the dangling check, the
  adjacency sets and the traversal. \<^const>\<open>None\<close> is a \<^verbatim>\<open>TypeError\<close> that escapes.
\<close>

definition checkTopology :: "ComponentInstance list \<Rightarrow> 'c topology \<Rightarrow> verdict option" where
  "checkTopology components st =
     (case danglingComponents components st of
        None \<Rightarrow> None
      | Some dangling \<Rightarrow>
          if length dangling > 0 then Some (Fail (danglingMessage dangling))
          else
            (case buildAdjacency components st of
               None \<Rightarrow> None
             | Some adjacency \<Rightarrow>
                 (case traverse adjacency [0] [0] of
                    None \<Rightarrow> None
                  | Some visited \<Rightarrow>
                      if length visited \<noteq> length components
                      then Some (Fail disconnectedMessage)
                      else Some Ok)))"

definition validateCircuitIntegrity :: "ComponentInstance list \<Rightarrow> verdict option" where
  "validateCircuitIntegrity components =
     (if length components = 0 then Some (Fail emptyCircuitMessage)
      else checkTopology components (buildTopology components))"

section \<open>The analysis action (analysisController)\<close>

text \<open>
  One validation pass, as the click handler runs it: the integrity validation, and the
  parameter validation when the first accepts.
\<close>

definition validationPass :: "ComponentInstance list \<Rightarrow> verdict option" where
  "validationPass components =
     (case validateCircuitIntegrity components of
        None \<Rightarrow> None
      | Some (Fail error) \<Rightarrow> Some (Fail error)
      | Some Ok \<Rightarrow> Some (validateComponentParams components))"

text \<open>
  What the module and the page keep between two clicks: the module variable
  \<^verbatim>\<open>analysisErrorTimer\<close>, the message of the popup, the timers cleared so far, the draft in the
  local storage (with its time stamp) and the number of analysis pages opened.
\<close>

record session =
  analysisErrorTimer :: "nat option"
  popupMessage :: "string option"
  clearedTimers :: "nat list"
  draft :: "(nat \<times> ComponentInstance list) option"
  openedPages :: nat

text \<open>\<open>timer\<close> is the handle that \<^verbatim>\<open>window.setTimeout\<close> returns.\<close>

definition showAnalysisErrorPopup :: "string \<Rightarrow> nat \<Rightarrow> session \<Rightarrow> session" where
  "showAnalysisErrorPopup message timer s =
     s\<lparr>popupMessage := Some message,
       clearedTimers :=
         (case analysisErrorTimer s of
            None \<Rightarrow> clearedTimers s
          | Some old \<Rightarrow> clearedTimers s @ [old]),
       analysisErrorTimer := Some timer\<rparr>"

text \<open>
  The click handler on the components of the canvas; \<open>now\<close> is \<^verbatim>\<open>Date.now()\<close>. It yields the
  verdict that it acts on, and the session as it leaves it; \<^const>\<open>None\<close> is a \<^verbatim>\<open>TypeError\<close>
  that escapes.
\<close>

definition analyzeClick ::
  "ComponentInstance list \<Rightarrow> nat \<Rightarrow> nat \<Rightarrow> session \<Rightarrow> (verdict \<times> session) option" where
  "analyzeClick canvas now timer s =
     (let components = normalizeComponentsForAnalysis canvas in
      case validateCircuitIntegrity components of
        None \<Rightarrow> None
      | Some (Fail error) \<Rightarrow> Some (Fail error, showAnalysisErrorPopup error timer s)
      | Some Ok \<Rightarrow>
          (case validateComponentParams components of
             Fail error \<Rightarrow> Some (Fail error, showAnalysisErrorPopup error timer s)
           | Ok \<Rightarrow> Some (Ok, s\<lparr>draft := Some (now, components),
                                openedPages := openedPages s + 1\<rparr>)))"

section \<open>The inspector (componentInspectorController)\<close>

text \<open>\<^verbatim>\<open>raw.replace(",", ".")\<close>: the first comma becomes a dot.\<close>

fun replaceComma :: "string \<Rightarrow> string" where
  "replaceComma [] = []"
| "replaceComma (ch # rest) = (if ch = CHR '','' then CHR ''.'' # rest else ch # replaceComma rest)"

text \<open>The loop of \<^verbatim>\<open>sanitizeNumericInput\<close>: the digits are kept, and the first dot.\<close>

fun keepNumeric :: "bool \<Rightarrow> string \<Rightarrow> string" where
  "keepNumeric dotUsed [] = []"
| "keepNumeric dotUsed (ch # rest) =
     (if isDigit ch then ch # keepNumeric dotUsed rest
      else if ch = CHR ''.'' \<and> \<not> dotUsed then ch # keepNumeric True rest
      else keepNumeric dotUsed rest)"

definition sanitizeNumericInput :: "string \<Rightarrow> string" where
  "sanitizeNumericInput raw = keepNumeric False (replaceComma raw)"

definition isInspectableComponent :: "ComponentInstance option \<Rightarrow> bool" where
  "isInspectableComponent c = (case c of None \<Rightarrow> False | Some cmp \<Rightarrow> type_c cmp \<noteq> ''wire'')"

text \<open>\<^verbatim>\<open>typeof flag === "boolean" ? flag : true\<close>.\<close>

definition flagOrTrue :: "bool option \<Rightarrow> bool" where
  "flagOrTrue flag = (case flag of Some b \<Rightarrow> b | None \<Rightarrow> True)"

text \<open>
  What \<^verbatim>\<open>renderComponent\<close> writes to the check boxes of the inspector, as the pair
  (\<^verbatim>\<open>currentUnknown\<close>, \<^verbatim>\<open>voltageUnknown\<close>); \<^const>\<open>None\<close> when it hides the form.
\<close>

definition renderComponent_unknowns :: "ComponentInstance option \<Rightarrow> (bool \<times> bool) option" where
  "renderComponent_unknowns c =
     (if \<not> isInspectableComponent c then None
      else
        (let cmp = the c;
             isVoltageSource = (type_c cmp = ''voltage_source'');
             isCurrentSource = (type_c cmp = ''current_source'');
             sourceType = (isVoltageSource \<or> isCurrentSource);
             currentUnknown0 = flagOrTrue (currentUnknown cmp);
             voltageUnknown0 = flagOrTrue (voltageUnknown cmp)
         in if sourceType \<and> currentUnknown0 = voltageUnknown0 then
              (if isVoltageSource then Some (True, False)
               else if isCurrentSource then Some (False, True)
               else Some (currentUnknown0, voltageUnknown0))
            else Some (currentUnknown0, voltageUnknown0)))"

section \<open>Labelling a new component (canvasController)\<close>

definition getLabelPrefix :: "string \<Rightarrow> string option" where
  "getLabelPrefix t =
     (if t = ''resistor'' then Some ''R''
      else if t = ''capacitor'' then Some ''C''
      else if t = ''inductor'' then Some ''L''
      else if t = ''voltage_source'' then Some ''V''
      else if t = ''current_source'' then Some ''I''
      else None)"

text \<open>The groups of a match of \<^verbatim>\<open>/^([A-Z])(\d+)$/\<close>.\<close>

definition matchLabel :: "string \<Rightarrow> (string \<times> string) option" where
  "matchLabel s =
     (case s of
        [] \<Rightarrow> None
      | c # ds \<Rightarrow> if isUpperLetter c \<and> ds \<noteq> [] \<and> list_all isDigit ds then Some ([c], ds) else None)"

text \<open>\<^verbatim>\<open>Number\<close> on a string of decimal digits, as an exact integer.\<close>

definition digitsToNumber :: "string \<Rightarrow> nat" where
  "digitsToNumber ds = foldl (\<lambda>n d. 10 * n + ((of_char d :: nat) - 48)) 0 ds"

text \<open>The pair (\<^verbatim>\<open>currentUnknown\<close>, \<^verbatim>\<open>voltageUnknown\<close>) of \<^verbatim>\<open>sourceUnknowns\<close>.\<close>

definition sourceUnknowns :: "ComponentInstance \<Rightarrow> bool \<times> bool" where
  "sourceUnknowns c =
     (let isVoltageSource = (type_c c = ''voltage_source'');
          isCurrentSource = (type_c c = ''current_source'');
          currentUnknownRaw = flagOrTrue (currentUnknown c);
          voltageUnknownRaw = flagOrTrue (voltageUnknown c)
      in if isVoltageSource then
           (if currentUnknownRaw = voltageUnknownRaw then True else currentUnknownRaw,
            if currentUnknownRaw = voltageUnknownRaw then False else voltageUnknownRaw)
         else if isCurrentSource then
           (if currentUnknownRaw = voltageUnknownRaw then False else currentUnknownRaw,
            if currentUnknownRaw = voltageUnknownRaw then True else voltageUnknownRaw)
         else (currentUnknownRaw, voltageUnknownRaw))"

definition maxIndex :: "string \<Rightarrow> ComponentInstance list \<Rightarrow> nat" where
  "maxIndex prefix existing =
     foldl (\<lambda>m cmp.
        if \<not> truthy (label cmp) then m
        else (case matchLabel (the (label cmp)) of
                None \<Rightarrow> m
              | Some (letter, ds) \<Rightarrow> if letter \<noteq> prefix then m else max m (digitsToNumber ds)))
       0 existing"

definition buildLabeledComponent :: "ComponentInstance \<Rightarrow> ComponentInstance list \<Rightarrow> ComponentInstance" where
  "buildLabeledComponent c existing =
     (case getLabelPrefix (type_c c) of
        None \<Rightarrow> c
      | Some prefix \<Rightarrow>
          (let usedLabels = set (map the (filter truthy (map label existing)));
               ownMatch = (if truthy (label c) then matchLabel (the (label c)) else None)
           in if truthy (label c) \<and> ownMatch \<noteq> None \<and> fst (the ownMatch) = prefix
                 \<and> the (label c) \<notin> usedLabels
              then c
              else
                (let isVoltageSource = (type_c c = ''voltage_source'');
                     isPassive = (type_c c = ''resistor'' \<or> type_c c = ''capacitor''
                                  \<or> type_c c = ''inductor'')
                 in c\<lparr>label := Some (prefix @ numberToString (maxIndex prefix existing + 1)),
                       valueUnknown :=
                         (if isPassive
                          then Some (case valueUnknown c of Some b \<Rightarrow> b | None \<Rightarrow> False)
                          else None),
                       value_c :=
                         (if isPassive
                          then Some (case value_c c of Some v \<Rightarrow> v | None \<Rightarrow> [])
                          else None),
                       current := Some (case current c of Some v \<Rightarrow> v | None \<Rightarrow> []),
                       currentUnknown := Some (fst (sourceUnknowns c)),
                       voltage := Some (case voltage c of Some v \<Rightarrow> v | None \<Rightarrow> []),
                       voltageUnknown := Some (snd (sourceUnknowns c)),
                       sourceDirection :=
                         Some (case sourceDirection c of Some d \<Rightarrow> d | None \<Rightarrow> a_to_b),
                       sourcePolarity :=
                         (if isVoltageSource
                          then Some (case sourcePolarity c of Some p \<Rightarrow> p | None \<Rightarrow> a_positive)
                          else sourcePolarity c)\<rparr>)))"

section \<open>The validation on a store of objects\<close>

text \<open>
  The objects of the validation that are reached through references: the components, which
  the caller owns, and the clusters, which \<^verbatim>\<open>assignCluster\<close> creates and updates in place. A
  reference is an index into the store, and an object literal takes the next free index. A
  component is kept with its two pins in one object: the validation reads the coordinates
  and keeps no reference to a pin. The arrays, maps and sets of the validation are created
  in the call and hold numbers only.
\<close>

datatype obj = Comp ComponentInstance | Cluster cluster

type_synonym store = "obj list"

definition componentAt :: "store \<Rightarrow> nat \<Rightarrow> ComponentInstance option" where
  "componentAt h r =
     (if r < length h then (case h ! r of Comp c \<Rightarrow> Some c | Cluster _ \<Rightarrow> None) else None)"

definition clusterAt :: "store \<Rightarrow> nat \<Rightarrow> cluster option" where
  "clusterAt h r =
     (if r < length h then (case h ! r of Cluster c \<Rightarrow> Some c | Comp _ \<Rightarrow> None) else None)"

text \<open>
  The loop of \<^verbatim>\<open>assignCluster\<close> on the store: \<open>refs\<close> is the array \<^verbatim>\<open>clusters\<close>. \<^const>\<open>None\<close> is
  the \<^verbatim>\<open>TypeError\<close> of a reference to nothing.
\<close>

function assignCluster_on ::
  "nat \<Rightarrow> store \<Rightarrow> nat list \<Rightarrow> real \<Rightarrow> real \<Rightarrow> (store \<times> nat list \<times> nat) option" where
  "assignCluster_on i h refs x y =
     (if i < length refs then
        (case clusterAt h (refs ! i) of
           None \<Rightarrow> None
         | Some cluster \<Rightarrow>
             (let dx = x - cluster_x cluster;
                  dy = y - cluster_y cluster
              in if dx * dx + dy * dy > tolerance2 then assignCluster_on (i + 1) h refs x y
                 else
                   (let newCount = cluster_count cluster + 1 in
                    Some (h[refs ! i := Cluster
                             \<lparr>cluster_x =
                                (cluster_x cluster * real (cluster_count cluster) + x) / real newCount,
                              cluster_y =
                                (cluster_y cluster * real (cluster_count cluster) + y) / real newCount,
                              cluster_count = newCount\<rparr>],
                          refs, i))))
      else Some (h @ [Cluster \<lparr>cluster_x = x, cluster_y = y, cluster_count = 1\<rparr>],
                 refs @ [length h], length refs))"
  by pat_completeness auto
termination
  by (relation "measure (\<lambda>(i, h, refs, x, y). length refs - i)") auto

declare assignCluster_on.simps [simp del]

text \<open>
  The body of \<^verbatim>\<open>components.forEach\<close> on the store, for the component behind the reference
  \<open>r\<close>: terminal B is read after the first call of \<^verbatim>\<open>assignCluster\<close>.
\<close>

definition visitComponent_on ::
  "nat \<times> nat \<Rightarrow> store \<times> nat topology \<Rightarrow> (store \<times> nat topology) option" where
  "visitComponent_on ir hs =
     (case ir of (index, r) \<Rightarrow> case hs of (h, st) \<Rightarrow>
        (case componentAt h r of
           None \<Rightarrow> None
         | Some cmpA \<Rightarrow>
             (case assignCluster_on 0 h (clusters st) (pin_x (pinA cmpA)) (pin_y (pinA cmpA)) of
                None \<Rightarrow> None
              | Some (h1, refs1, a) \<Rightarrow>
                  (case componentAt h1 r of
                     None \<Rightarrow> None
                   | Some cmpB \<Rightarrow>
                       (case assignCluster_on 0 h1 refs1 (pin_x (pinB cmpB)) (pin_y (pinB cmpB)) of
                          None \<Rightarrow> None
                        | Some (h2, refs2, b) \<Rightarrow>
                            Some (h2,
                              incTerminal b index
                                (incTerminal a index
                                   (st\<lparr>clusters := refs2,
                                       componentNodes := componentNodes st @ [(a, b)]\<rparr>))))))))"

fun forEach_on ::
  "(nat \<times> nat) list \<Rightarrow> store \<times> nat topology \<Rightarrow> (store \<times> nat topology) option" where
  "forEach_on [] hs = Some hs"
| "forEach_on (ir # rest) hs = Option.bind (visitComponent_on ir hs) (forEach_on rest)"

definition buildTopology_on :: "store \<Rightarrow> nat list \<Rightarrow> (store \<times> nat topology) option" where
  "buildTopology_on h components = forEach_on (enumerate 0 components) (h, emptyTopology)"

text \<open>The components behind the references of an array, as the store holds them.\<close>

definition readComponents :: "store \<Rightarrow> nat list \<Rightarrow> ComponentInstance list option" where
  "readComponents h components = those (map (componentAt h) components)"

text \<open>
  The validators on the store. They yield the verdict and the store as they leave it;
  \<^const>\<open>None\<close> is a \<^verbatim>\<open>TypeError\<close> that escapes.
\<close>

definition validateCircuitIntegrity_on :: "store \<Rightarrow> nat list \<Rightarrow> (verdict \<times> store) option" where
  "validateCircuitIntegrity_on h components =
     (if length components = 0 then Some (Fail emptyCircuitMessage, h)
      else
        (case buildTopology_on h components of
           None \<Rightarrow> None
         | Some (h', st) \<Rightarrow>
             (case readComponents h' components of
                None \<Rightarrow> None
              | Some cs \<Rightarrow> map_option (\<lambda>v. (v, h')) (checkTopology cs st))))"

definition validateComponentParams_on :: "store \<Rightarrow> nat list \<Rightarrow> (verdict \<times> store) option" where
  "validateComponentParams_on h components =
     map_option (\<lambda>cs. (validateComponentParams cs, h)) (readComponents h components)"

definition validationPass_on :: "store \<Rightarrow> nat list \<Rightarrow> (verdict \<times> store) option" where
  "validationPass_on h components =
     (case validateCircuitIntegrity_on h components of
        None \<Rightarrow> None
      | Some (Fail error, h') \<Rightarrow> Some (Fail error, h')
      | Some (Ok, h') \<Rightarrow> validateComponentParams_on h' components)"

section \<open>The notions of the specification\<close>

subsection \<open>Clustering\<close>

text \<open>The centroid of the cluster lies within the tolerance of the point \<open>(x, y)\<close>.\<close>

definition withinTolerance :: "cluster \<Rightarrow> real \<Rightarrow> real \<Rightarrow> bool" where
  "withinTolerance cl x y =
     (sqrt ((x - cluster_x cl)\<^sup>2 + (y - cluster_y cl)\<^sup>2) \<le> CLUSTER_TOLERANCE)"

text \<open>The cluster after it takes the point: the incremental mean, and one more member.\<close>

definition absorb :: "cluster \<Rightarrow> real \<Rightarrow> real \<Rightarrow> cluster" where
  "absorb cl x y =
     \<lparr>cluster_x = (cluster_x cl * real (cluster_count cl) + x) / real (cluster_count cl + 1),
      cluster_y = (cluster_y cl * real (cluster_count cl) + y) / real (cluster_count cl + 1),
      cluster_count = cluster_count cl + 1\<rparr>"

text \<open>
  The first cluster within the tolerance takes the point; without one, the point founds a
  new cluster.
\<close>

definition clusterPoint :: "cluster list \<Rightarrow> real \<Rightarrow> real \<Rightarrow> cluster list \<times> nat" where
  "clusterPoint cls x y =
     (case filter (\<lambda>i. withinTolerance (cls ! i) x y) [0..<length cls] of
        [] \<Rightarrow> (cls @ [\<lparr>cluster_x = x, cluster_y = y, cluster_count = 1\<rparr>], length cls)
      | i # _ \<Rightarrow> (cls[i := absorb (cls ! i) x y], i))"

text \<open>The points one after the other; the node ids come out parallel to the points.\<close>

fun clusterAll :: "cluster list \<Rightarrow> (real \<times> real) list \<Rightarrow> cluster list \<times> nat list" where
  "clusterAll cls [] = (cls, [])"
| "clusterAll cls ((x, y) # points) =
     (case clusterPoint cls x y of
        (cls', i) \<Rightarrow> (case clusterAll cls' points of (final, ids) \<Rightarrow> (final, i # ids)))"

text \<open>The terminals in the order of the component list, terminal A before terminal B.\<close>

definition terminalPoints :: "ComponentInstance list \<Rightarrow> (real \<times> real) list" where
  "terminalPoints components =
     concat (map (\<lambda>c. [(pin_x (pinA c), pin_y (pinA c)), (pin_x (pinB c), pin_y (pinB c))])
               components)"

definition nodeIds :: "(nat \<times> nat) list \<Rightarrow> nat list" where
  "nodeIds nodes = concat (map (\<lambda>ab. [fst ab, snd ab]) nodes)"

subsection \<open>Nodes, dangling components and the component-adjacency graph\<close>

text \<open>The number of terminals that were assigned to the node \<open>k\<close>.\<close>

definition memberCount :: "(nat \<times> nat) list \<Rightarrow> nat \<Rightarrow> nat" where
  "memberCount nodes k = count_list (nodeIds nodes) k"

text \<open>The components with a terminal on the node \<open>k\<close>.\<close>

definition componentsAt :: "(nat \<times> nat) list \<Rightarrow> nat \<Rightarrow> nat set" where
  "componentsAt nodes k = {i. i < length nodes \<and> (fst (nodes ! i) = k \<or> snd (nodes ! i) = k)}"

text \<open>A component is dangling: one of its two nodes has fewer than two members.\<close>

definition isDangling :: "(nat \<times> nat) list \<Rightarrow> nat \<Rightarrow> bool" where
  "isDangling nodes i =
     (memberCount nodes (fst (nodes ! i)) < 2 \<or> memberCount nodes (snd (nodes ! i)) < 2)"

text \<open>The names of the dangling components, in the order of the component list.\<close>

definition danglingNames :: "ComponentInstance list \<Rightarrow> string list" where
  "danglingNames components =
     map (\<lambda>i. canonicalLabel (components ! i) i)
       (filter (isDangling (componentNodes (buildTopology components))) [0..<length components])"

text \<open>Two components share a node id.\<close>

definition sharesNode :: "(nat \<times> nat) list \<Rightarrow> nat \<Rightarrow> nat \<Rightarrow> bool" where
  "sharesNode nodes i j =
     (i < length nodes \<and> j < length nodes
      \<and> (fst (nodes ! i) = fst (nodes ! j) \<or> fst (nodes ! i) = snd (nodes ! j)
          \<or> snd (nodes ! i) = fst (nodes ! j) \<or> snd (nodes ! i) = snd (nodes ! j)))"

text \<open>
  The component-adjacency graph: the vertices are the components, and an edge joins two
  components that share a node id.
\<close>

definition componentGraph :: "(nat \<times> nat) list \<Rightarrow> (nat \<times> nat) set" where
  "componentGraph nodes = {(i, j). i \<noteq> j \<and> sharesNode nodes i j}"

subsection \<open>Invariants and abstractions\<close>

text \<open>\<^verbatim>\<open>clusterComponents.get(nodeId) ?? new Set()\<close>.\<close>

definition compIdsOf :: "(nat \<times> nat list) list \<Rightarrow> nat \<Rightarrow> nat list" where
  "compIdsOf cc nodeId = (case map_of cc nodeId of None \<Rightarrow> [] | Some s \<Rightarrow> s)"

text \<open>What holds of the state of the walk after any number of components.\<close>

definition topologyInv :: "'c topology \<Rightarrow> bool" where
  "topologyInv st =
     ((\<forall>k. getCount (terminalCounts st) k = memberCount (componentNodes st) k)
      \<and> (\<forall>k. set (compIdsOf (clusterComponents st) k) = componentsAt (componentNodes st) k)
      \<and> (\<forall>k. distinct (compIdsOf (clusterComponents st) k))
      \<and> distinct (map fst (clusterComponents st))
      \<and> (\<forall>ab\<in>set (componentNodes st). fst ab < length (clusters st) \<and> snd ab < length (clusters st)))"

text \<open>The edges that an array of adjacency sets holds.\<close>

definition adjRel :: "nat list list \<Rightarrow> (nat \<times> nat) set" where
  "adjRel adjacency = {(v, w). v < length adjacency \<and> w \<in> set (adjacency ! v)}"

text \<open>The clusters behind the references of the array \<^verbatim>\<open>clusters\<close>.\<close>

definition clustersOf :: "store \<Rightarrow> nat list \<Rightarrow> cluster list" where
  "clustersOf h refs = map (\<lambda>r. the (clusterAt h r)) refs"

text \<open>
  The references of \<^verbatim>\<open>clusters\<close> are distinct, and they point to clusters that were created
  after the store had \<open>n0\<close> objects.
\<close>

definition clusterRefs_ok :: "nat \<Rightarrow> store \<Rightarrow> nat list \<Rightarrow> bool" where
  "clusterRefs_ok n0 h refs =
     (n0 \<le> length h \<and> distinct refs \<and> (\<forall>r\<in>set refs. n0 \<le> r \<and> clusterAt h r \<noteq> None))"

text \<open>The state of the walk with the clusters in place of their references.\<close>

definition topologyOf :: "store \<Rightarrow> nat topology \<Rightarrow> cluster topology" where
  "topologyOf h st =
     \<lparr>clusters = clustersOf h (clusters st), terminalCounts = terminalCounts st,
      clusterComponents = clusterComponents st, componentNodes = componentNodes st\<rparr>"

subsection \<open>Sample components, circuits and states\<close>

text \<open>A component of the given kind between two points, with every optional field absent.\<close>

definition component :: "string \<Rightarrow> real \<times> real \<Rightarrow> real \<times> real \<Rightarrow> ComponentInstance" where
  "component kind a b =
     \<lparr>id_c = ''c'', type_c = kind,
      pinA = \<lparr>pin_x = fst a, pin_y = snd a\<rparr>, pinB = \<lparr>pin_x = fst b, pin_y = snd b\<rparr>,
      rotation = None, label = None, value_c = None, valueUnknown = None,
      current = None, currentUnknown = None, voltage = None, voltageUnknown = None,
      sourceDirection = None, sourcePolarity = None\<rparr>"

definition fiveApart :: "ComponentInstance list" where
  "fiveApart =
     [component ''resistor'' (0, 0) (40, 0), component ''wire'' (100, 0) (140, 0),
      component ''capacitor'' (200, 0) (240, 0), component ''inductor'' (300, 0) (340, 0),
      component ''resistor'' (400, 0) (440, 0)]"

text \<open>A resistor and a wire between the same two points, and the same loop twice, far apart.\<close>

definition oneLoop :: "ComponentInstance list" where
  "oneLoop = [component ''resistor'' (0, 0) (40, 0), component ''wire'' (0, 0) (40, 0)]"

definition twoLoops :: "ComponentInstance list" where
  "twoLoops =
     [component ''resistor'' (0, 0) (40, 0), component ''wire'' (0, 0) (40, 0),
      component ''resistor'' (200, 0) (240, 0), component ''wire'' (200, 0) (240, 0)]"

definition idleSession :: session where
  "idleSession =
     \<lparr>analysisErrorTimer = None, popupMessage = None, clearedTimers = [], draft = None,
      openedPages = 0\<rparr>"

definition loopStore :: store where
  "loopStore = [Comp (component ''resistor'' (0, 0) (40, 0)), Comp (component ''wire'' (0, 0) (40, 0))]"

section \<open>Proofs\<close>

subsection \<open>Facts about strings, labels and parameters\<close>

lemma trim_Nil: "trim [] = []"
  by (simp add: trim_def)

lemma trim_no_white: "\<not> list_ex isWhiteSpace s \<Longrightarrow> trim s = s"
proof (cases "s = []")
  case True
  then show ?thesis by (simp add: trim_Nil)
next
  case False
  assume n: "\<not> list_ex isWhiteSpace s"
  from False n have "\<not> isWhiteSpace (hd s)" "\<not> isWhiteSpace (last s)"
    by (auto simp: list_ex_iff)
  then have "dropWhile isWhiteSpace s = s" "dropWhile isWhiteSpace (rev s) = rev s"
    using False by (auto simp: dropWhile_eq_self_iff hd_rev)
  then show ?thesis by (simp add: trim_def)
qed

lemma hasField_hasText: "hasField v = hasText v"
  by (cases v) (auto simp: hasField_def hasText_def trim_Nil)

lemma numberToString_nonempty: "numberToString n \<noteq> []"
  by (subst numberToString.simps) simp

lemma canonicalLabel_nonempty: "canonicalLabel c i \<noteq> []"
  by (auto simp: canonicalLabel_def Let_def truthy_def split: option.splits)

lemma reason_truthy: "truthy (getMissingParamReason c) \<longleftrightarrow> getMissingParamReason c \<noteq> None"
  by (auto simp: getMissingParamReason_def truthy_def Let_def)

lemma missingEntry_truthy:
  "truthy (missingEntry (i, c)) \<longleftrightarrow> getMissingParamReason c \<noteq> None"
proof (cases "getMissingParamReason c")
  case None
  then show ?thesis by (simp add: missingEntry_def truthy_def)
next
  case (Some reason)
  with reason_truthy [of c] have "truthy (Some reason)" by simp
  with Some show ?thesis by (simp add: missingEntry_def) (simp add: truthy_def)
qed

lemma validateComponentParams_Ok:
  "validateComponentParams components = Ok
     \<longleftrightarrow> (\<forall>c\<in>set components. getMissingParamReason c = None)"
proof -
  have "filter truthy (map missingEntry (enumerate 0 components)) = []
      \<longleftrightarrow> (\<forall>p\<in>set (enumerate 0 components). getMissingParamReason (snd p) = None)"
    by (auto simp: filter_empty_conv missingEntry_truthy)
  also have "\<dots> \<longleftrightarrow> (\<forall>c\<in>snd ` set (enumerate 0 components). getMissingParamReason c = None)"
    by auto
  also have "snd ` set (enumerate 0 components) = set components"
    by (metis map_snd_enumerate set_map)
  finally show ?thesis
    by (simp add: validateComponentParams_def Let_def)
qed

lemma validateComponentParams_single:
  "validateComponentParams [c] =
     (case getMissingParamReason c of
        None \<Rightarrow> Ok
      | Some reason \<Rightarrow>
          Fail (''Errore parametro mancante: '' @ canonicalLabel c 0 @ '' ('' @ reason @ '').''))"
proof (cases "getMissingParamReason c")
  case None
  then show ?thesis by (simp add: validateComponentParams_Ok)
next
  case (Some reason)
  then have "truthy (missingEntry (0, c))" by (simp add: missingEntry_truthy)
  moreover have "missingEntry (0, c) = Some (canonicalLabel c 0 @ '' ('' @ reason @ '')'')"
    using Some reason_truthy [of c] by (simp add: missingEntry_def)
  ultimately show ?thesis
    using Some by (simp add: validateComponentParams_def)
qed

lemma resistor_label: "canonicalLabel (component ''resistor'' (0, 0) (40, 0)) 0 = ''RESISTOR_1''"
  by code_simp

lemma hasText_iff: "hasText v \<longleftrightarrow> (\<exists>s. v = Some s \<and> trim s \<noteq> [])"
  by (cases v) (simp_all add: hasText_def)

lemma voltage_source_reason:
  "type_c c = ''voltage_source'' \<Longrightarrow>
     getMissingParamReason c
       = (if voltageUnknown c = Some True \<or> \<not> hasText (voltage c) then Some ''tensione'' else None)"
  by (simp add: getMissingParamReason_def)

lemma current_source_reason:
  "type_c c = ''current_source'' \<Longrightarrow>
     getMissingParamReason c
       = (if currentUnknown c = Some True \<or> \<not> hasText (current c) then Some ''corrente'' else None)"
  by (simp add: getMissingParamReason_def)

lemma normalize_voltage_source:
  "type_c c = ''voltage_source'' \<Longrightarrow>
     normalizeComponent c
       = c\<lparr>value_c := None, voltageUnknown := Some (\<not> hasText (voltage c)),
           currentUnknown := Some (hasText (voltage c))\<rparr>"
  by (simp add: normalizeComponent_def Let_def hasField_hasText)

lemma normalize_current_source:
  "type_c c = ''current_source'' \<Longrightarrow>
     normalizeComponent c
       = c\<lparr>value_c := None, currentUnknown := Some (\<not> hasText (current c)),
           voltageUnknown := Some (hasText (current c))\<rparr>"
  by (simp add: normalizeComponent_def Let_def hasField_hasText)

subsection \<open>Facts about the clustering\<close>

lemma withinTolerance_squared:
  "withinTolerance cl x y
     \<longleftrightarrow> \<not> (x - cluster_x cl) * (x - cluster_x cl) + (y - cluster_y cl) * (y - cluster_y cl)
            > tolerance2"
proof -
  let ?d = "(x - cluster_x cl)\<^sup>2 + (y - cluster_y cl)\<^sup>2"
  have "sqrt ?d \<le> 8 \<longleftrightarrow> ?d \<le> 8\<^sup>2"
    using sqrt_le_D [of ?d 8] real_le_lsqrt [of 8 ?d] by auto
  then show ?thesis
    by (simp add: withinTolerance_def tolerance2_def CLUSTER_TOLERANCE_def power2_eq_square not_less)
qed

lemma assignCluster_from_spec:
  "i \<le> length cls \<Longrightarrow>
     assignCluster_from i cls x y =
       (case filter (\<lambda>i. withinTolerance (cls ! i) x y) [i..<length cls] of
          [] \<Rightarrow> (cls @ [\<lparr>cluster_x = x, cluster_y = y, cluster_count = 1\<rparr>], length cls)
        | j # _ \<Rightarrow> (cls[j := absorb (cls ! j) x y], j))"
proof (induction i cls x y rule: assignCluster_from.induct)
  case (1 i cls x y)
  show ?case
  proof (cases "i < length cls")
    case False
    with "1.prems" show ?thesis
      by (subst assignCluster_from.simps) simp
  next
    case True
    then have upt: "[i..<length cls] = i # [Suc i..<length cls]"
      by (rule upt_conv_Cons)
    show ?thesis
    proof (cases "withinTolerance (cls ! i) x y")
      case True
      with \<open>i < length cls\<close> show ?thesis
        unfolding upt
        by (subst assignCluster_from.simps)
          (simp add: withinTolerance_squared Let_def absorb_def)
    next
      case False
      with \<open>i < length cls\<close> have
        "assignCluster_from i cls x y = assignCluster_from (i + 1) cls x y"
        by (subst assignCluster_from.simps) (simp add: withinTolerance_squared Let_def)
      also have "\<dots> = (case filter (\<lambda>i. withinTolerance (cls ! i) x y) [i + 1..<length cls] of
          [] \<Rightarrow> (cls @ [\<lparr>cluster_x = x, cluster_y = y, cluster_count = 1\<rparr>], length cls)
        | j # _ \<Rightarrow> (cls[j := absorb (cls ! j) x y], j))"
        using False \<open>i < length cls\<close>
        by (intro "1.IH") (simp_all add: withinTolerance_squared)
      finally show ?thesis
        unfolding upt using False by simp
    qed
  qed
qed

lemma assignCluster_spec: "assignCluster cls x y = clusterPoint cls x y"
  by (simp add: assignCluster_def clusterPoint_def assignCluster_from_spec)


lemma filter_upt_first:
  assumes "filter P [0..<n] = i # rest"
  shows "i < n \<and> P i \<and> (\<forall>j<i. \<not> P j)"
proof -
  from assms obtain us vs where s: "[0..<n] = us @ i # vs" "\<forall>u\<in>set us. \<not> P u" "P i"
    by (auto simp: filter_eq_Cons_iff)
  have "i \<in> set [0..<n]" unfolding s(1) by simp
  then have "i < n" by simp
  have "sorted_wrt (<) (us @ i # vs)" unfolding s(1) [symmetric] by simp
  then have gt: "\<forall>v\<in>set vs. i < v" by (simp add: sorted_wrt_append)
  have "\<not> P j" if "j < i" for j
  proof -
    from that \<open>i < n\<close> have "j \<in> set [0..<n]" by simp
    then have "j \<in> set us \<or> j = i \<or> j \<in> set vs" unfolding s(1) by auto
    with that gt s(2) show ?thesis by auto
  qed
  with \<open>i < n\<close> s(3) show ?thesis by blast
qed

lemma clusterPoint_cases:
  assumes "clusterPoint cls x y = (cls', i)"
  shows "(i < length cls \<and> withinTolerance (cls ! i) x y
            \<and> (\<forall>j<i. \<not> withinTolerance (cls ! j) x y)
            \<and> cls' = cls[i := absorb (cls ! i) x y])
         \<or> (i = length cls \<and> (\<forall>j<length cls. \<not> withinTolerance (cls ! j) x y)
            \<and> cls' = cls @ [\<lparr>cluster_x = x, cluster_y = y, cluster_count = 1\<rparr>])"
proof (cases "filter (\<lambda>i. withinTolerance (cls ! i) x y) [0..<length cls]")
  case Nil
  then have "\<forall>j<length cls. \<not> withinTolerance (cls ! j) x y"
    by (auto simp: filter_empty_conv)
  with Nil assms show ?thesis by (auto simp: clusterPoint_def)
next
  case (Cons k rest)
  from filter_upt_first [OF Cons] Cons assms show ?thesis
    by (auto simp: clusterPoint_def)
qed

lemma clusterPoint_length:
  "clusterPoint cls x y = (cls', i) \<Longrightarrow> i < length cls' \<and> length cls \<le> length cls'"
  using clusterPoint_cases [of cls x y cls' i] by auto


subsection \<open>Facts about the walk over the components\<close>

lemma incTerminal_fields [simp]:
  "clusters (incTerminal k i st) = clusters st"
  "componentNodes (incTerminal k i st) = componentNodes st"
  "getCount (terminalCounts (incTerminal k i st)) j
     = getCount (terminalCounts st) j + (if j = k then 1 else 0)"
  "compIdsOf (clusterComponents (incTerminal k i st)) j
     = (if j = k then setAdd i (compIdsOf (clusterComponents st) k)
        else compIdsOf (clusterComponents st) j)"
  "distinct (map fst (clusterComponents (incTerminal k i st)))
     = distinct (map fst (clusterComponents st))"
  by (simp_all add: incTerminal_def Let_def getCount_def compIdsOf_def update_conv'
      update_keys)

lemma setAdd_set [simp]: "set (setAdd v s) = insert v (set s)"
  by (auto simp: setAdd_def)

lemma setAdd_distinct [simp]: "distinct (setAdd v s) = distinct s"
  by (auto simp: setAdd_def)

lemma visitComponent_step:
  assumes "clusterPoint (clusters st) (pin_x (pinA c)) (pin_y (pinA c)) = (cl1, a)"
    and "clusterPoint cl1 (pin_x (pinB c)) (pin_y (pinB c)) = (cl2, b)"
  shows "visitComponent (m, c) st =
           incTerminal b m (incTerminal a m
             (st\<lparr>clusters := cl2, componentNodes := componentNodes st @ [(a, b)]\<rparr>))"
  using assms by (simp add: visitComponent_def assignCluster_spec)

lemma memberCount_snoc:
  "memberCount (nodes @ [(a, b)]) k
     = memberCount nodes k + (if k = a then 1 else 0) + (if k = b then 1 else 0)"
  by (simp add: memberCount_def nodeIds_def)

lemma componentsAt_snoc:
  "componentsAt (nodes @ [(a, b)]) k
     = componentsAt nodes k \<union> (if k = a \<or> k = b then {length nodes} else {})"
  by (auto simp: componentsAt_def nth_append less_Suc_eq)

lemma topologyInv_empty: "topologyInv emptyTopology"
  by (simp add: topologyInv_def emptyTopology_def getCount_def memberCount_def nodeIds_def
      componentsAt_def compIdsOf_def)

lemma topologyInv_step:
  assumes inv: "topologyInv st"
  shows "topologyInv (visitComponent (length (componentNodes st), c) st)"
proof -
  define m where "m = length (componentNodes st)"
  obtain cl1 a where 1: "clusterPoint (clusters st) (pin_x (pinA c)) (pin_y (pinA c)) = (cl1, a)"
    by (cases "clusterPoint (clusters st) (pin_x (pinA c)) (pin_y (pinA c))")
  obtain cl2 b where 2: "clusterPoint cl1 (pin_x (pinB c)) (pin_y (pinB c)) = (cl2, b)"
    by (cases "clusterPoint cl1 (pin_x (pinB c)) (pin_y (pinB c))")
  note v = visitComponent_step [OF 1 2, of m]
  have m: "length (componentNodes st) = m" by (simp add: m_def)
  from clusterPoint_length [OF 1] clusterPoint_length [OF 2]
  have len: "a < length cl2" "b < length cl2" "length (clusters st) \<le> length cl2"
    by auto
  let ?st0 = "st\<lparr>clusters := cl2, componentNodes := componentNodes st @ [(a, b)]\<rparr>"
  have c: "\<forall>k. getCount (terminalCounts (visitComponent (m, c) st)) k
             = memberCount (componentNodes (visitComponent (m, c) st)) k"
    using inv by (simp add: v memberCount_snoc topologyInv_def)
  have s: "\<forall>k. set (compIdsOf (clusterComponents (visitComponent (m, c) st)) k)
             = componentsAt (componentNodes (visitComponent (m, c) st)) k"
    using inv by (auto simp: v componentsAt_snoc topologyInv_def m)
  have d: "\<forall>k. distinct (compIdsOf (clusterComponents (visitComponent (m, c) st)) k)"
    using inv by (simp add: v topologyInv_def)
  have k: "distinct (map fst (clusterComponents (visitComponent (m, c) st)))"
    using inv by (simp add: v topologyInv_def)
  have b: "\<forall>ab\<in>set (componentNodes (visitComponent (m, c) st)).
             fst ab < length (clusters (visitComponent (m, c) st))
             \<and> snd ab < length (clusters (visitComponent (m, c) st))"
    using inv len by (fastforce simp: v topologyInv_def)
  from c s d k b show ?thesis
    unfolding topologyInv_def m by blast
qed

lemma fold_visitComponent_inv:
  "topologyInv st \<Longrightarrow> m = length (componentNodes st) \<Longrightarrow>
     topologyInv (fold visitComponent (enumerate m cs) st)
     \<and> length (componentNodes (fold visitComponent (enumerate m cs) st)) = m + length cs"
proof (induction cs arbitrary: st m)
  case Nil
  then show ?case by simp
next
  case (Cons c cs)
  have l: "length (componentNodes (visitComponent (m, c) st)) = Suc m"
  proof -
    obtain cl1 a where 1: "clusterPoint (clusters st) (pin_x (pinA c)) (pin_y (pinA c)) = (cl1, a)"
      by (cases "clusterPoint (clusters st) (pin_x (pinA c)) (pin_y (pinA c))")
    obtain cl2 b where 2: "clusterPoint cl1 (pin_x (pinB c)) (pin_y (pinB c)) = (cl2, b)"
      by (cases "clusterPoint cl1 (pin_x (pinB c)) (pin_y (pinB c))")
    show ?thesis using Cons.prems(2) by (simp add: visitComponent_step [OF 1 2])
  qed
  from Cons.IH [of "visitComponent (m, c) st" "Suc m"] topologyInv_step [OF Cons.prems(1)] l
    Cons.prems(2)
  show ?case by simp
qed

lemma buildTopology_inv:
  "topologyInv (buildTopology cs)"
  "length (componentNodes (buildTopology cs)) = length cs"
  using fold_visitComponent_inv [of emptyTopology 0 cs]
  by (simp_all add: buildTopology_def topologyInv_empty) (simp_all add: emptyTopology_def)

lemma fold_visitComponent_clusterAll:
  "clusterAll (clusters st) (terminalPoints cs) = (final, ids) \<Longrightarrow>
     clusters (fold visitComponent (enumerate m cs) st) = final
     \<and> nodeIds (componentNodes (fold visitComponent (enumerate m cs) st))
         = nodeIds (componentNodes st) @ ids"
proof (induction cs arbitrary: st m ids)
  case Nil
  then show ?case by (simp add: terminalPoints_def)
next
  case (Cons c cs)
  obtain cl1 a where 1: "clusterPoint (clusters st) (pin_x (pinA c)) (pin_y (pinA c)) = (cl1, a)"
    by (cases "clusterPoint (clusters st) (pin_x (pinA c)) (pin_y (pinA c))")
  obtain cl2 b where 2: "clusterPoint cl1 (pin_x (pinB c)) (pin_y (pinB c)) = (cl2, b)"
    by (cases "clusterPoint cl1 (pin_x (pinB c)) (pin_y (pinB c))")
  obtain ids' where 3: "clusterAll cl2 (terminalPoints cs) = (final, ids')" "ids = a # b # ids'"
    using Cons.prems 1 2 by (auto simp: terminalPoints_def split: prod.splits)
  let ?st = "visitComponent (m, c) st"
  have "clusters ?st = cl2" "componentNodes ?st = componentNodes st @ [(a, b)]"
    by (simp_all add: visitComponent_step [OF 1 2])
  with Cons.IH [of ?st ids' "Suc m"] 3 show ?case
    by (simp add: nodeIds_def)
qed

lemma buildTopology_clusterAll:
  "clusterAll [] (terminalPoints cs) = (final, ids) \<Longrightarrow>
     clusters (buildTopology cs) = final \<and> nodeIds (componentNodes (buildTopology cs)) = ids"
  using fold_visitComponent_clusterAll [of emptyTopology cs final ids 0]
  by (simp add: buildTopology_def) (simp add: emptyTopology_def nodeIds_def)

subsection \<open>Facts about the adjacency sets\<close>

lemma adjRel_replicate [simp]: "adjRel (map (\<lambda>_. []) cs) = {}"
  by (auto simp: adjRel_def)

lemma addEdge_Some:
  assumes "a < length adj" "b < length adj"
  shows "\<exists>adj'. addEdge a b adj = Some adj' \<and> length adj' = length adj
           \<and> adjRel adj' = adjRel adj \<union> {(a, b), (b, a)}"
proof -
  let ?adj1 = "adj[a := setAdd b (adj ! a)]"
  let ?adj2 = "?adj1[b := setAdd a (?adj1 ! b)]"
  have "addEdge a b adj = Some ?adj2"
    using assms by (simp add: addEdge_def Let_def)
  moreover have "length ?adj2 = length adj" by simp
  moreover have "adjRel ?adj2 = adjRel adj \<union> {(a, b), (b, a)}"
    using assms by (auto simp: adjRel_def nth_list_update split: if_splits)
  ultimately show ?thesis by blast
qed

lemma linkFrom_Some:
  "a < length adj \<Longrightarrow> \<forall>b\<in>set rest. b < length adj \<Longrightarrow>
     \<exists>adj'. linkFrom a rest adj = Some adj' \<and> length adj' = length adj
       \<and> adjRel adj' = adjRel adj \<union> {a} \<times> set rest \<union> set rest \<times> {a}"
proof (induction rest arbitrary: adj)
  case Nil
  then show ?case by simp
next
  case (Cons b rest)
  from Cons.prems obtain adj1 where 1: "addEdge a b adj = Some adj1" "length adj1 = length adj"
    "adjRel adj1 = adjRel adj \<union> {(a, b), (b, a)}"
    using addEdge_Some [of a adj b] by auto
  from Cons.IH [of adj1] Cons.prems 1(2)
  obtain adj' where 2: "linkFrom a rest adj1 = Some adj'" "length adj' = length adj1"
    "adjRel adj' = adjRel adj1 \<union> {a} \<times> set rest \<union> set rest \<times> {a}"
    by auto
  show ?case
  proof (intro exI [of _ adj'] conjI)
    show "linkFrom a (b # rest) adj = Some adj'" using 1(1) 2(1) by simp
    show "length adj' = length adj" using 1(2) 2(2) by simp
    show "adjRel adj' = adjRel adj \<union> {a} \<times> set (b # rest) \<union> set (b # rest) \<times> {a}"
      unfolding 2(3) 1(3) by auto
  qed
qed

lemma linkAll_Some:
  "\<forall>b\<in>set ids. b < length adj \<Longrightarrow> distinct ids \<Longrightarrow>
     \<exists>adj'. linkAll ids adj = Some adj' \<and> length adj' = length adj
       \<and> adjRel adj' = adjRel adj \<union> {(v, w). v \<in> set ids \<and> w \<in> set ids \<and> v \<noteq> w}"
proof (induction ids arbitrary: adj)
  case Nil
  then show ?case by simp
next
  case (Cons a rest)
  from Cons.prems obtain adj1 where 1: "linkFrom a rest adj = Some adj1" "length adj1 = length adj"
    "adjRel adj1 = adjRel adj \<union> {a} \<times> set rest \<union> set rest \<times> {a}"
    using linkFrom_Some [of a adj rest] by auto
  from Cons.IH [of adj1] Cons.prems 1(2)
  obtain adj' where 2: "linkAll rest adj1 = Some adj'" "length adj' = length adj1"
    "adjRel adj' = adjRel adj1 \<union> {(v, w). v \<in> set rest \<and> w \<in> set rest \<and> v \<noteq> w}"
    by auto
  show ?case
  proof (intro exI [of _ adj'] conjI)
    show "linkAll (a # rest) adj = Some adj'" using 1(1) 2(1) by simp
    show "length adj' = length adj" using 1(2) 2(2) by simp
    show "adjRel adj' = adjRel adj
        \<union> {(v, w). v \<in> set (a # rest) \<and> w \<in> set (a # rest) \<and> v \<noteq> w}"
      unfolding 2(3) 1(3) using Cons.prems(2) by auto
  qed
qed

lemma linkClusters_Some:
  "\<forall>ks\<in>set cc. distinct (snd ks) \<and> (\<forall>b\<in>set (snd ks). b < length adj) \<Longrightarrow>
     \<exists>adj'. linkClusters cc adj = Some adj' \<and> length adj' = length adj
       \<and> adjRel adj' = adjRel adj
           \<union> {(v, w). v \<noteq> w \<and> (\<exists>ks\<in>set cc. v \<in> set (snd ks) \<and> w \<in> set (snd ks))}"
proof (induction cc arbitrary: adj)
  case Nil
  then show ?case by simp
next
  case (Cons ks cc)
  obtain k ids where ks: "ks = (k, ids)" by (cases ks)
  from Cons.prems ks obtain adj1 where 1: "linkAll ids adj = Some adj1" "length adj1 = length adj"
    "adjRel adj1 = adjRel adj \<union> {(v, w). v \<in> set ids \<and> w \<in> set ids \<and> v \<noteq> w}"
    using linkAll_Some [of ids adj] by auto
  from Cons.IH [of adj1] Cons.prems 1(2)
  obtain adj' where 2: "linkClusters cc adj1 = Some adj'" "length adj' = length adj1"
    "adjRel adj' = adjRel adj1
        \<union> {(v, w). v \<noteq> w \<and> (\<exists>ks\<in>set cc. v \<in> set (snd ks) \<and> w \<in> set (snd ks))}"
    by auto
  show ?case
  proof (intro exI [of _ adj'] conjI)
    show "linkClusters (ks # cc) adj = Some adj'" using 1(1) 2(1) ks by simp
    show "length adj' = length adj" using 1(2) 2(2) by simp
    show "adjRel adj' = adjRel adj
        \<union> {(v, w). v \<noteq> w \<and> (\<exists>ks\<in>set (ks # cc). v \<in> set (snd ks) \<and> w \<in> set (snd ks))}"
      unfolding 2(3) 1(3) using ks by auto
  qed
qed

lemma sharesNode_componentsAt:
  "sharesNode nodes i j \<longleftrightarrow> (\<exists>k. i \<in> componentsAt nodes k \<and> j \<in> componentsAt nodes k)"
  by (auto simp: sharesNode_def componentsAt_def)

lemma topologyInv_entries:
  assumes "topologyInv st"
  shows "(k, s) \<in> set (clusterComponents st)
           \<Longrightarrow> distinct s \<and> set s = componentsAt (componentNodes st) k"
    and "i \<in> componentsAt (componentNodes st) k
           \<Longrightarrow> \<exists>s. (k, s) \<in> set (clusterComponents st) \<and> i \<in> set s"
proof -
  from assms have d: "distinct (map fst (clusterComponents st))"
    and s: "\<And>k. set (compIdsOf (clusterComponents st) k) = componentsAt (componentNodes st) k"
    and ds: "\<And>k. distinct (compIdsOf (clusterComponents st) k)"
    by (simp_all add: topologyInv_def)
  {
    assume "(k, s) \<in> set (clusterComponents st)"
    with d have "map_of (clusterComponents st) k = Some s" by simp
    then have "compIdsOf (clusterComponents st) k = s" by (simp add: compIdsOf_def)
    with s [of k] ds [of k] show "distinct s \<and> set s = componentsAt (componentNodes st) k"
      by simp
  }
  {
    assume "i \<in> componentsAt (componentNodes st) k"
    with s [of k] have i: "i \<in> set (compIdsOf (clusterComponents st) k)" by simp
    then obtain s where "map_of (clusterComponents st) k = Some s" "i \<in> set s"
      by (cases "map_of (clusterComponents st) k") (auto simp: compIdsOf_def)
    then show "\<exists>s. (k, s) \<in> set (clusterComponents st) \<and> i \<in> set s"
      by (auto dest: map_of_SomeD)
  }
qed

lemma buildAdjacency_Some:
  "\<exists>adj. buildAdjacency cs (buildTopology cs) = Some adj \<and> length adj = length cs
     \<and> adjRel adj = componentGraph (componentNodes (buildTopology cs))"
proof -
  let ?st = "buildTopology cs"
  let ?nodes = "componentNodes ?st"
  note inv = buildTopology_inv [of cs]
  have bound: "\<forall>ks\<in>set (clusterComponents ?st).
      distinct (snd ks) \<and> (\<forall>b\<in>set (snd ks). b < length (map (\<lambda>_. []) cs))"
  proof
    fix ks assume ks: "ks \<in> set (clusterComponents ?st)"
    obtain k s where e: "ks = (k, s)" by (cases ks)
    from topologyInv_entries(1) [OF inv(1), of k s] ks e
    have "distinct s" "set s = componentsAt ?nodes k" by simp_all
    then show "distinct (snd ks) \<and> (\<forall>b\<in>set (snd ks). b < length (map (\<lambda>_. []) cs))"
      using e inv(2) by (auto simp: componentsAt_def)
  qed
  from linkClusters_Some [OF bound]
  obtain adj where a: "linkClusters (clusterComponents ?st) (map (\<lambda>_. []) cs) = Some adj"
    "length adj = length cs"
    "adjRel adj = {(v, w). v \<noteq> w
        \<and> (\<exists>ks\<in>set (clusterComponents ?st). v \<in> set (snd ks) \<and> w \<in> set (snd ks))}"
    by auto
  have "adjRel adj = componentGraph ?nodes"
  proof -
    have "(\<exists>ks\<in>set (clusterComponents ?st). v \<in> set (snd ks) \<and> w \<in> set (snd ks))
        \<longleftrightarrow> sharesNode ?nodes v w" for v w
    proof
      assume "\<exists>ks\<in>set (clusterComponents ?st). v \<in> set (snd ks) \<and> w \<in> set (snd ks)"
      then obtain k s where "(k, s) \<in> set (clusterComponents ?st)" "v \<in> set s" "w \<in> set s"
        by auto
      with topologyInv_entries(1) [OF inv(1), of k s]
      show "sharesNode ?nodes v w"
        unfolding sharesNode_componentsAt by auto
    next
      assume "sharesNode ?nodes v w"
      then obtain k where k: "v \<in> componentsAt ?nodes k" "w \<in> componentsAt ?nodes k"
        unfolding sharesNode_componentsAt by auto
      from topologyInv_entries(2) [OF inv(1) k(1)]
      obtain s where s: "(k, s) \<in> set (clusterComponents ?st)" "v \<in> set s" by auto
      with topologyInv_entries(1) [OF inv(1) s(1)] k(2) have "w \<in> set s" by simp
      with s show "\<exists>ks\<in>set (clusterComponents ?st). v \<in> set (snd ks) \<and> w \<in> set (snd ks)"
        by force
    qed
    then show ?thesis
      unfolding a(3) componentGraph_def by auto
  qed
  with a(1,2) show ?thesis
    by (auto simp: buildAdjacency_def)
qed

subsection \<open>Facts about the traversal\<close>

lemma fold_visitNeighbor:
  "\<exists>added. fold visitNeighbor ns (visited, queue) = (visited @ added, queue @ added)
     \<and> set added = set ns - set visited
     \<and> (distinct visited \<longrightarrow> distinct (visited @ added))"
proof (induction ns arbitrary: visited queue)
  case Nil
  then show ?case by simp
next
  case (Cons n ns)
  show ?case
  proof (cases "n \<in> set visited")
    case True
    with Cons.IH [of visited queue] show ?thesis
      by (auto simp: visitNeighbor_def)
  next
    case False
    from Cons.IH [of "visited @ [n]" "queue @ [n]"]
    obtain added where a:
      "fold visitNeighbor ns (visited @ [n], queue @ [n]) = ((visited @ [n]) @ added, (queue @ [n]) @ added)"
      "set added = set ns - set (visited @ [n])"
      "distinct (visited @ [n]) \<longrightarrow> distinct ((visited @ [n]) @ added)"
      by blast
    show ?thesis
    proof (intro exI [of _ "n # added"] conjI)
      show "fold visitNeighbor (n # ns) (visited, queue) = (visited @ n # added, queue @ n # added)"
        using False a(1) by (simp add: visitNeighbor_def setAdd_def)
      show "set (n # added) = set (n # ns) - set visited"
        using False a(2) by auto
      show "distinct visited \<longrightarrow> distinct (visited @ n # added)"
        using False a(3) by auto
    qed
  qed
qed

lemma closed_reachable:
  assumes "origin \<in> S" and "\<forall>v\<in>S. R `` {v} \<subseteq> S"
  shows "R\<^sup>* `` {origin} \<subseteq> S"
proof
  fix w assume "w \<in> R\<^sup>* `` {origin}"
  then have "(origin, w) \<in> R\<^sup>*" by simp
  then show "w \<in> S"
    using assms by (induction rule: rtrancl_induct) auto
qed

lemma traverse_reachable:
  assumes "\<forall>v w. (v, w) \<in> adjRel adj \<longrightarrow> w < length adj"
    and "set queue \<subseteq> set visited"
    and "distinct visited"
    and "\<forall>v\<in>set visited. v < length adj"
    and "origin \<in> set visited"
    and "set visited \<subseteq> (adjRel adj)\<^sup>* `` {origin}"
    and "\<forall>v\<in>set visited - set queue. adjRel adj `` {v} \<subseteq> set visited"
  shows "\<exists>vs. traverse adj visited queue = Some vs \<and> distinct vs
           \<and> set vs = (adjRel adj)\<^sup>* `` {origin}"
  using assms
proof (induction adj visited queue rule: traverse.induct)
  case (1 adj visited)
  from "1.prems"(5,7) have "(adjRel adj)\<^sup>* `` {origin} \<subseteq> set visited"
    by (intro closed_reachable) auto
  with "1.prems"(3,6) show ?case
    by (auto simp: traverse.simps)
next
  case (2 adj visited cur queue)
  from "2.prems"(2,4) have cur: "cur \<in> set visited" "cur < length adj" by auto
  obtain added where a:
    "fold visitNeighbor (adj ! cur) (visited, queue) = (visited @ added, queue @ added)"
    "set added = set (adj ! cur) - set visited"
    "distinct (visited @ added)"
    using fold_visitNeighbor [of "adj ! cur" visited queue] "2.prems"(3) by blast
  have nb: "adjRel adj `` {cur} = set (adj ! cur)"
    using cur(2) by (auto simp: adjRel_def)
  have "\<exists>vs. traverse adj (visited @ added) (queue @ added) = Some vs \<and> distinct vs
           \<and> set vs = (adjRel adj)\<^sup>* `` {origin}"
  proof (rule "2.IH" [OF cur(2) a(1) [symmetric] "2.prems"(1)])
    show "set (queue @ added) \<subseteq> set (visited @ added)"
      using "2.prems"(2) by auto
    show "distinct (visited @ added)" by (rule a(3))
    show "\<forall>v\<in>set (visited @ added). v < length adj"
    proof
      fix v assume "v \<in> set (visited @ added)"
      then consider "v \<in> set visited" | "v \<in> set (adj ! cur)" using a(2) by auto
      then show "v < length adj"
      proof cases
        case 1
        with "2.prems"(4) show ?thesis by auto
      next
        case 2
        with cur(2) have "(cur, v) \<in> adjRel adj" by (simp add: adjRel_def)
        with "2.prems"(1) show ?thesis by blast
      qed
    qed
    show "origin \<in> set (visited @ added)" using "2.prems"(5) by simp
    show "set (visited @ added) \<subseteq> (adjRel adj)\<^sup>* `` {origin}"
    proof
      fix v assume "v \<in> set (visited @ added)"
      then consider "v \<in> set visited" | "v \<in> set (adj ! cur)" using a(2) by auto
      then show "v \<in> (adjRel adj)\<^sup>* `` {origin}"
      proof cases
        case 1
        with "2.prems"(6) show ?thesis by auto
      next
        case 2
        with cur(2) have "(cur, v) \<in> adjRel adj" by (simp add: adjRel_def)
        moreover from cur(1) "2.prems"(6) have "(origin, cur) \<in> (adjRel adj)\<^sup>*" by auto
        ultimately show ?thesis by (auto intro: rtrancl_into_rtrancl)
      qed
    qed
    show "\<forall>v\<in>set (visited @ added) - set (queue @ added).
            adjRel adj `` {v} \<subseteq> set (visited @ added)"
    proof
      fix v assume v: "v \<in> set (visited @ added) - set (queue @ added)"
      show "adjRel adj `` {v} \<subseteq> set (visited @ added)"
      proof (cases "v = cur")
        case True
        then show ?thesis using nb a(2) by auto
      next
        case False
        with v have "v \<in> set visited - set (cur # queue)" by auto
        with "2.prems"(7) show ?thesis by auto
      qed
    qed
  qed
  then show ?case
    using cur(2) a(1) by (simp add: traverse.simps)
qed

lemma traverse_from_first:
  assumes "0 < length adj" and "\<forall>v w. (v, w) \<in> adjRel adj \<longrightarrow> w < length adj"
  shows "\<exists>vs. traverse adj [0] [0] = Some vs \<and> distinct vs
           \<and> set vs = (adjRel adj)\<^sup>* `` {0}"
proof (rule traverse_reachable)
  show "\<forall>v w. (v, w) \<in> adjRel adj \<longrightarrow> w < length adj" by (rule assms(2))
  show "\<forall>v\<in>set [0]. v < length adj" using assms(1) by simp
qed simp_all

lemma visited_all_iff:
  assumes "distinct vs" and "set vs = R\<^sup>* `` {0}" and "\<forall>v w. (v, w) \<in> R \<longrightarrow> w < n" and "0 < n"
  shows "length vs = n \<longleftrightarrow> (\<forall>j<n. (0, j) \<in> R\<^sup>*)"
proof -
  have lt: "w < n" if "(0, w) \<in> R\<^sup>*" for w
    using that
  proof (induction rule: rtrancl_induct)
    case base
    show ?case by (rule assms(4))
  next
    case (step y z)
    from step(2) assms(3) show ?case by blast
  qed
  have mem: "w \<in> set vs \<longleftrightarrow> (0, w) \<in> R\<^sup>*" for w
    unfolding assms(2) by simp
  have sub: "set vs \<subseteq> {..<n}"
    using lt mem by auto
  have len: "length vs = card (set vs)"
    using assms(1) by (simp add: distinct_card)
  show ?thesis
  proof
    assume "length vs = n"
    with len have "card (set vs) = card {..<n}" by simp
    with sub have "set vs = {..<n}"
      by (intro card_subset_eq) simp_all
    then show "\<forall>j<n. (0, j) \<in> R\<^sup>*"
      using mem by blast
  next
    assume "\<forall>j<n. (0, j) \<in> R\<^sup>*"
    with mem have "{..<n} \<subseteq> set vs" by blast
    with sub have "set vs = {..<n}" by blast
    with len show "length vs = n" by simp
  qed
qed

subsection \<open>Facts about the verdict of the integrity validation\<close>

lemma enumerate_nth: "enumerate 0 xs = map (\<lambda>i. (i, xs ! i)) [0..<length xs]"
  by (rule nth_equalityI) (simp_all add: nth_enumerate_eq)

lemma those_map_Some: "those (map (\<lambda>x. Some (g x)) xs) = Some (map g xs)"
  by (induction xs) simp_all

lemma keep_named:
  "map the (filter truthy (map (\<lambda>i. if D i then Some (canonicalLabel (cs ! i) i) else None) xs))
     = map (\<lambda>i. canonicalLabel (cs ! i) i) (filter D xs)"
  by (induction xs) (simp_all add: truthy_def canonicalLabel_nonempty)

lemma danglingComponents_names:
  "danglingComponents cs (buildTopology cs) = Some (danglingNames cs)"
proof -
  let ?st = "buildTopology cs"
  let ?nodes = "componentNodes ?st"
  note inv = buildTopology_inv [of cs]
  have counts: "getCount (terminalCounts ?st) k = memberCount ?nodes k" for k
    using inv(1) by (simp add: topologyInv_def)
  have "map (danglingEntry cs (terminalCounts ?st)) (enumerate 0 ?nodes)
      = map (\<lambda>i. Some (if isDangling ?nodes i then Some (canonicalLabel (cs ! i) i) else None))
          [0..<length cs]"
    unfolding enumerate_nth inv(2) map_map
    by (rule map_cong)
      (auto simp: danglingEntry_def counts isDangling_def Let_def split: prod.splits)
  then show ?thesis
    by (simp add: danglingComponents_def those_map_Some keep_named danglingNames_def)
qed

text \<open>
  The verdict on a non-empty list, in terms of the dangling components and of the
  component-adjacency graph. No \<^verbatim>\<open>TypeError\<close> arises.
\<close>

lemma validateCircuitIntegrity_verdict:
  assumes "cs \<noteq> []"
  shows "validateCircuitIntegrity cs =
           Some (if danglingNames cs \<noteq> [] then Fail (danglingMessage (danglingNames cs))
                 else if \<forall>j<length cs. (0, j) \<in> (componentGraph (componentNodes (buildTopology cs)))\<^sup>*
                 then Ok else Fail disconnectedMessage)"
proof -
  let ?nodes = "componentNodes (buildTopology cs)"
  from buildAdjacency_Some [of cs] obtain adj where
    adj: "buildAdjacency cs (buildTopology cs) = Some adj" "length adj = length cs"
      "adjRel adj = componentGraph ?nodes"
    by blast
  have len: "length ?nodes = length cs" by (rule buildTopology_inv)
  have bound: "\<forall>v w. (v, w) \<in> adjRel adj \<longrightarrow> w < length adj"
    unfolding adj(3) using len adj(2) by (simp add: componentGraph_def sharesNode_def)
  from assms adj(2) have pos: "0 < length adj" by simp
  from traverse_from_first [OF pos bound] obtain vs where
    vs: "traverse adj [0] [0] = Some vs" "distinct vs" "set vs = (adjRel adj)\<^sup>* `` {0}"
    by blast
  have "length vs = length adj \<longleftrightarrow> (\<forall>j<length adj. (0, j) \<in> (adjRel adj)\<^sup>*)"
    by (rule visited_all_iff [OF vs(2,3) bound pos])
  then have all: "length vs = length cs
      \<longleftrightarrow> (\<forall>j<length cs. (0, j) \<in> (componentGraph ?nodes)\<^sup>*)"
    unfolding adj(2) adj(3) .
  have v: "validateCircuitIntegrity cs =
      (if length (danglingNames cs) > 0 then Some (Fail (danglingMessage (danglingNames cs)))
       else if length vs \<noteq> length cs then Some (Fail disconnectedMessage) else Some Ok)"
    using assms
    by (simp add: validateCircuitIntegrity_def checkTopology_def danglingComponents_names
        adj(1) vs(1))
  show ?thesis
  proof (cases "danglingNames cs = []")
    case False
    then show ?thesis unfolding v by simp
  next
    case True
    show ?thesis
    proof (cases "length vs = length cs")
      case True
      with \<open>danglingNames cs = []\<close> all show ?thesis unfolding v by simp
    next
      case False
      with \<open>danglingNames cs = []\<close> all show ?thesis unfolding v by simp
    qed
  qed
qed




lemma danglingNames_empty_iff:
  "danglingNames cs = []
     \<longleftrightarrow> (\<forall>i<length cs. \<not> isDangling (componentNodes (buildTopology cs)) i)"
  by (auto simp: danglingNames_def filter_empty_conv)

lemma fiveApart_names:
  "danglingNames fiveApart = [''RESISTOR_1'', ''WIRE_2'', ''CAPACITOR_3'', ''INDUCTOR_4'', ''RESISTOR_5'']"
  by code_simp

lemma componentGraph_bound:
  "(v, w) \<in> componentGraph nodes \<Longrightarrow> v < length nodes \<and> w < length nodes"
  by (simp add: componentGraph_def sharesNode_def)

lemma separated_unreachable:
  assumes sep: "\<forall>i j. i < k \<and> k \<le> j \<longrightarrow> \<not> sharesNode nodes i j"
    and k: "0 < k"
    and r: "(0, w) \<in> (componentGraph nodes)\<^sup>*"
  shows "w < k"
  using r
proof (induction rule: rtrancl_induct)
  case base
  show ?case by (rule k)
next
  case (step y z)
  from step(2) have "sharesNode nodes y z" by (simp add: componentGraph_def)
  with sep step(3) show ?case by (meson not_le_imp_less)
qed

lemma oneLoop_nodes: "componentNodes (buildTopology oneLoop) = [(0, 1), (0, 1)]"
  by code_simp

lemma twoLoops_nodes: "componentNodes (buildTopology twoLoops) = [(0, 1), (0, 1), (2, 3), (2, 3)]"
  by code_simp

lemma oneLoop_verdict: "validateCircuitIntegrity oneLoop = Some Ok"
  by code_simp

lemma single_close_topology:
  assumes "withinTolerance \<lparr>cluster_x = pin_x (pinA c), cluster_y = pin_y (pinA c),
              cluster_count = 1\<rparr> (pin_x (pinB c)) (pin_y (pinB c))"
  shows "componentNodes (buildTopology [c]) = [(0, 0)]"
    and "length (clusters (buildTopology [c])) = 1"
proof -
  let ?first = "\<lparr>cluster_x = pin_x (pinA c), cluster_y = pin_y (pinA c), cluster_count = 1\<rparr>"
  have 1: "clusterPoint (clusters emptyTopology) (pin_x (pinA c)) (pin_y (pinA c)) = ([?first], 0)"
    by (simp add: clusterPoint_def emptyTopology_def)
  have 2: "clusterPoint [?first] (pin_x (pinB c)) (pin_y (pinB c))
      = ([absorb ?first (pin_x (pinB c)) (pin_y (pinB c))], 0)"
    using assms by (simp add: clusterPoint_def)
  have b: "buildTopology [c] = visitComponent (0, c) emptyTopology"
    by (simp add: buildTopology_def)
  show "componentNodes (buildTopology [c]) = [(0, 0)]"
    unfolding b visitComponent_step [OF 1 2] by (simp add: emptyTopology_def)
  show "length (clusters (buildTopology [c])) = 1"
    unfolding b visitComponent_step [OF 1 2] by simp
qed

lemma validateCircuitIntegrity_returns: "validateCircuitIntegrity cs \<noteq> None"
proof (cases "cs = []")
  case True
  then show ?thesis by (simp add: validateCircuitIntegrity_def)
next
  case False
  then show ?thesis by (simp add: validateCircuitIntegrity_verdict)
qed

lemma analyzeClick_verdict:
  "map_option fst (analyzeClick canvas now timer s)
     = validationPass (normalizeComponentsForAnalysis canvas)"
  by (simp add: analyzeClick_def validationPass_def Let_def split: option.splits verdict.splits)

lemma nodeIds_inject: "nodeIds ns = nodeIds ns' \<Longrightarrow> ns = ns'"
proof (induction ns arbitrary: ns')
  case Nil
  then show ?case by (cases ns') (simp_all add: nodeIds_def)
next
  case (Cons ab ns)
  then show ?case
    by (cases ns') (auto simp: nodeIds_def prod_eq_iff)
qed

lemma lone_resistor_click:
  "analyzeClick [component ''resistor'' (0, 0) (40, 0)] 1000 7 idleSession
     = Some (Fail (''Errore di integrit'' @ [CHR 0xE0]
                @ '': componenti/rami scoperti (RESISTOR_1).''),
             \<lparr>analysisErrorTimer = Some 7,
              popupMessage = Some (''Errore di integrit'' @ [CHR 0xE0]
                @ '': componenti/rami scoperti (RESISTOR_1).''),
              clearedTimers = [], draft = None, openedPages = 0\<rparr>)"
  by code_simp

subsection \<open>Facts about the validation on a store\<close>

lemma clusterAt_less: "clusterAt h r = Some c \<Longrightarrow> r < length h"
  by (simp add: clusterAt_def split: if_splits)

lemma clusterAt_update:
  "r < length h \<Longrightarrow> clusterAt (h[r := Cluster c]) r' = (if r' = r then Some c else clusterAt h r')"
  by (simp add: clusterAt_def)

lemma clusterAt_append:
  "clusterAt (h @ [Cluster c]) r = (if r = length h then Some c else clusterAt h r)"
  by (simp add: clusterAt_def nth_append)

lemma componentAt_take:
  assumes "take n0 h' = take n0 h" and "n0 \<le> length h" and "r < n0"
  shows "componentAt h' r = componentAt h r"
proof -
  from assms(1,2) have "length (take n0 h') = n0" by simp
  then have l: "n0 \<le> length h'" by simp
  from assms(3) have "h' ! r = take n0 h' ! r" "h ! r = take n0 h ! r" by simp_all
  with assms(1) have "h' ! r = h ! r" by simp
  with l assms(2,3) show ?thesis by (simp add: componentAt_def)
qed

lemma assignCluster_on_refines:
  assumes "clusterRefs_ok n0 h refs" and "i \<le> length refs"
  shows "\<exists>h' refs' k. assignCluster_on i h refs x y = Some (h', refs', k)
           \<and> take n0 h' = take n0 h \<and> clusterRefs_ok n0 h' refs'
           \<and> assignCluster_from i (clustersOf h refs) x y = (clustersOf h' refs', k)"
  using assms
proof (induction i h refs x y rule: assignCluster_on.induct)
  case (1 i h refs x y)
  note ok = "1.prems"(1)
  have okD: "n0 \<le> length h" "distinct refs" "\<And>r. r \<in> set refs \<Longrightarrow> n0 \<le> r"
    "\<And>r. r \<in> set refs \<Longrightarrow> \<exists>c. clusterAt h r = Some c"
    using ok by (auto simp: clusterRefs_ok_def)
  show ?case
  proof (cases "i < length refs")
    case False
    let ?new = "\<lparr>cluster_x = x, cluster_y = y, cluster_count = 1\<rparr>"
    let ?h' = "h @ [Cluster ?new]"
    let ?refs' = "refs @ [length h]"
    have old: "r < length h" if "r \<in> set refs" for r
      using okD(4) [OF that] by (auto dest: clusterAt_less)
    have a: "assignCluster_on i h refs x y = Some (?h', ?refs', length refs)"
      using False by (subst assignCluster_on.simps) simp
    have t: "take n0 ?h' = take n0 h"
      using ok by (simp add: clusterRefs_ok_def)
    have o: "clusterRefs_ok n0 ?h' ?refs'"
      using ok old by (auto simp: clusterRefs_ok_def clusterAt_append)
    have c: "clustersOf ?h' ?refs' = clustersOf h refs @ [?new]"
      using old by (auto simp: clustersOf_def clusterAt_append)
    have p: "assignCluster_from i (clustersOf h refs) x y = (clustersOf h refs @ [?new], length refs)"
      using False by (subst assignCluster_from.simps) (simp add: clustersOf_def)
    from a t o c p show ?thesis by simp
  next
    case True
    from True have mem: "refs ! i \<in> set refs" by simp
    from okD(4) [OF mem] obtain cl where cl: "clusterAt h (refs ! i) = Some cl" by blast
    from True cl have nth: "clustersOf h refs ! i = cl"
      by (simp add: clustersOf_def)
    from True have len: "i < length (clustersOf h refs)"
      by (simp add: clustersOf_def)
    show ?thesis
    proof (cases "(x - cluster_x cl) * (x - cluster_x cl) + (y - cluster_y cl) * (y - cluster_y cl)
        > tolerance2")
      case far: True
      have a: "assignCluster_on i h refs x y = assignCluster_on (i + 1) h refs x y"
        using True cl far by (subst assignCluster_on.simps) (simp add: Let_def)
      have p: "assignCluster_from i (clustersOf h refs) x y
          = assignCluster_from (i + 1) (clustersOf h refs) x y"
        using len nth far by (subst assignCluster_from.simps) (simp add: Let_def)
      from "1.IH" [OF True cl refl refl far ok] True
      show ?thesis unfolding a p by simp
    next
      case near: False
      let ?new = "\<lparr>cluster_x = (cluster_x cl * real (cluster_count cl) + x) / real (cluster_count cl + 1),
                    cluster_y = (cluster_y cl * real (cluster_count cl) + y) / real (cluster_count cl + 1),
                    cluster_count = cluster_count cl + 1\<rparr>"
      let ?h' = "h[refs ! i := Cluster ?new]"
      from cl have lt: "refs ! i < length h" by (auto dest: clusterAt_less)
      from okD(3) [OF mem] have ge: "n0 \<le> refs ! i" .
      have a: "assignCluster_on i h refs x y = Some (?h', refs, i)"
        using True cl near by (subst assignCluster_on.simps) (simp add: Let_def)
      have t: "take n0 ?h' = take n0 h"
        using ge by simp
      have o: "clusterRefs_ok n0 ?h' refs"
        using ok lt by (auto simp: clusterRefs_ok_def clusterAt_update)
      have c: "clustersOf ?h' refs = (clustersOf h refs)[i := ?new]"
      proof (rule nth_equalityI)
        show "length (clustersOf ?h' refs) = length ((clustersOf h refs)[i := ?new])"
          by (simp add: clustersOf_def)
        fix j assume "j < length (clustersOf ?h' refs)"
        then have j: "j < length refs" by (simp add: clustersOf_def)
        from ok have "distinct refs" by (simp add: clusterRefs_ok_def)
        with j True have "refs ! j = refs ! i \<longleftrightarrow> j = i"
          by (simp add: nth_eq_iff_index_eq)
        with j lt show "clustersOf ?h' refs ! j = (clustersOf h refs)[i := ?new] ! j"
          by (auto simp: clustersOf_def clusterAt_update nth_list_update)
      qed
      have p: "assignCluster_from i (clustersOf h refs) x y = ((clustersOf h refs)[i := ?new], i)"
        using len nth near by (subst assignCluster_from.simps) (simp add: Let_def)
      from a t o c p show ?thesis by simp
    qed
  qed
qed

lemma topologyOf_fields [simp]:
  "clusters (topologyOf h st) = clustersOf h (clusters st)"
  "terminalCounts (topologyOf h st) = terminalCounts st"
  "clusterComponents (topologyOf h st) = clusterComponents st"
  "componentNodes (topologyOf h st) = componentNodes st"
  by (simp_all add: topologyOf_def)

lemma topologyOf_incTerminal:
  "topologyOf h (incTerminal k i st) = incTerminal k i (topologyOf h st)"
  by (simp add: topologyOf_def incTerminal_def Let_def)

lemma danglingComponents_topologyOf:
  "danglingComponents cs (topologyOf h st) = danglingComponents cs st"
  by (simp add: danglingComponents_def)

lemma buildAdjacency_topologyOf: "buildAdjacency cs (topologyOf h st) = buildAdjacency cs st"
  by (simp add: buildAdjacency_def)

lemma checkTopology_topologyOf: "checkTopology cs (topologyOf h st) = checkTopology cs st"
  unfolding checkTopology_def danglingComponents_topologyOf buildAdjacency_topologyOf ..

lemma visitComponent_on_refines:
  assumes ok: "clusterRefs_ok n0 h (clusters st)"
    and c: "componentAt h r = Some c"
    and r: "r < n0"
  shows "\<exists>h' st'. visitComponent_on (m, r) (h, st) = Some (h', st')
           \<and> take n0 h' = take n0 h \<and> clusterRefs_ok n0 h' (clusters st')
           \<and> topologyOf h' st' = visitComponent (m, c) (topologyOf h st)"
proof -
  from assignCluster_on_refines [OF ok, of 0 "pin_x (pinA c)" "pin_y (pinA c)"]
  obtain h1 refs1 a where 1:
    "assignCluster_on 0 h (clusters st) (pin_x (pinA c)) (pin_y (pinA c)) = Some (h1, refs1, a)"
    "take n0 h1 = take n0 h" "clusterRefs_ok n0 h1 refs1"
    "assignCluster_from 0 (clustersOf h (clusters st)) (pin_x (pinA c)) (pin_y (pinA c))
       = (clustersOf h1 refs1, a)"
    by auto
  from ok have n0: "n0 \<le> length h" by (simp add: clusterRefs_ok_def)
  from componentAt_take [OF 1(2) n0 r] c have c1: "componentAt h1 r = Some c" by simp
  from assignCluster_on_refines [OF 1(3), of 0 "pin_x (pinB c)" "pin_y (pinB c)"]
  obtain h2 refs2 b where 2:
    "assignCluster_on 0 h1 refs1 (pin_x (pinB c)) (pin_y (pinB c)) = Some (h2, refs2, b)"
    "take n0 h2 = take n0 h1" "clusterRefs_ok n0 h2 refs2"
    "assignCluster_from 0 (clustersOf h1 refs1) (pin_x (pinB c)) (pin_y (pinB c))
       = (clustersOf h2 refs2, b)"
    by auto
  let ?st' = "incTerminal b m (incTerminal a m
      (st\<lparr>clusters := refs2, componentNodes := componentNodes st @ [(a, b)]\<rparr>))"
  have v: "visitComponent_on (m, r) (h, st) = Some (h2, ?st')"
    using c c1 1(1) 2(1) by (simp add: visitComponent_on_def)
  have t: "take n0 h2 = take n0 h" using 1(2) 2(2) by simp
  have o: "clusterRefs_ok n0 h2 (clusters ?st')" using 2(3) by simp
  have p: "topologyOf h2 ?st' = visitComponent (m, c) (topologyOf h st)"
    using 1(4) 2(4)
    by (simp add: visitComponent_def assignCluster_def topologyOf_incTerminal)
      (simp add: topologyOf_def)
  from v t o p show ?thesis by blast
qed

lemma forEach_on_refines:
  "clusterRefs_ok n0 h (clusters st) \<Longrightarrow> \<forall>r\<in>set refs. r < n0 \<Longrightarrow>
   map (componentAt h) refs = map Some cs \<Longrightarrow>
     \<exists>h' st'. forEach_on (enumerate m refs) (h, st) = Some (h', st')
       \<and> take n0 h' = take n0 h
       \<and> topologyOf h' st' = fold visitComponent (enumerate m cs) (topologyOf h st)"
proof (induction refs arbitrary: h st cs m)
  case Nil
  then show ?case by simp
next
  case (Cons r refs)
  from Cons.prems(3) obtain c cs' where cs: "cs = c # cs'" "componentAt h r = Some c"
    "map (componentAt h) refs = map Some cs'"
    by (cases cs) auto
  from Cons.prems(2) have r: "r < n0" by simp
  from visitComponent_on_refines [OF Cons.prems(1) cs(2) r, of m]
  obtain h1 st1 where 1: "visitComponent_on (m, r) (h, st) = Some (h1, st1)"
    "take n0 h1 = take n0 h" "clusterRefs_ok n0 h1 (clusters st1)"
    "topologyOf h1 st1 = visitComponent (m, c) (topologyOf h st)"
    by blast
  from Cons.prems(1) have n0: "n0 \<le> length h" by (simp add: clusterRefs_ok_def)
  have "map (componentAt h1) refs = map (componentAt h) refs"
    using Cons.prems(2) componentAt_take [OF 1(2) n0] by simp
  with cs(3) have m1: "map (componentAt h1) refs = map Some cs'" by simp
  from Cons.IH [OF 1(3) _ m1, of "Suc m"] Cons.prems(2)
  obtain h' st' where 2: "forEach_on (enumerate (Suc m) refs) (h1, st1) = Some (h', st')"
    "take n0 h' = take n0 h1"
    "topologyOf h' st' = fold visitComponent (enumerate (Suc m) cs') (topologyOf h1 st1)"
    by auto
  from 1 2 cs(1) show ?case by simp
qed

lemma those_eq_Some: "those xs = Some ys \<longleftrightarrow> xs = map Some ys"
proof (induction xs arbitrary: ys)
  case Nil
  then show ?case by auto
next
  case (Cons x xs)
  then show ?case
    by (cases x; cases ys) (auto split: option.splits)
qed

lemma readComponents_Some:
  "readComponents h refs = Some cs \<longleftrightarrow> map (componentAt h) refs = map Some cs"
  by (simp add: readComponents_def those_eq_Some)

lemma componentAt_less: "componentAt h r = Some c \<Longrightarrow> r < length h"
  by (simp add: componentAt_def split: if_splits)

lemma readComponents_bound:
  assumes "readComponents h refs = Some cs"
  shows "\<forall>r\<in>set refs. r < length h" and "length cs = length refs"
proof -
  from assms have m: "map (componentAt h) refs = map Some cs"
    by (simp add: readComponents_Some)
  then show "length cs = length refs" by (metis length_map)
  show "\<forall>r\<in>set refs. r < length h"
  proof
    fix r assume "r \<in> set refs"
    then have "componentAt h r \<in> set (map (componentAt h) refs)" by simp
    with m have "componentAt h r \<in> set (map Some cs)" by simp
    then obtain c where "componentAt h r = Some c" by auto
    then show "r < length h" by (rule componentAt_less)
  qed
qed

lemma readComponents_take:
  assumes "readComponents h refs = Some cs" and "take (length h) h' = h"
  shows "readComponents h' refs = Some cs"
proof -
  from assms(2) have t: "take (length h) h' = take (length h) h" by simp
  have "map (componentAt h') refs = map (componentAt h) refs"
    using readComponents_bound(1) [OF assms(1)] componentAt_take [OF t] by simp
  with assms(1) show ?thesis by (simp add: readComponents_Some)
qed

lemma buildTopology_on_refines:
  assumes "readComponents h refs = Some cs"
  shows "\<exists>h' st'. buildTopology_on h refs = Some (h', st') \<and> take (length h) h' = h
           \<and> topologyOf h' st' = buildTopology cs"
proof -
  have ok: "clusterRefs_ok (length h) h (clusters (emptyTopology :: nat topology))"
    by (simp add: clusterRefs_ok_def emptyTopology_def)
  have e: "topologyOf h emptyTopology = emptyTopology"
    by (simp add: topologyOf_def emptyTopology_def clustersOf_def)
  from assms have m: "map (componentAt h) refs = map Some cs"
    by (simp add: readComponents_Some)
  from forEach_on_refines [OF ok readComponents_bound(1) [OF assms] m, of 0]
  show ?thesis
    by (auto simp: buildTopology_on_def buildTopology_def e)
qed

lemma loopStore_pass:
  "validationPass_on loopStore [0, 1]
     = Some (Fail ''Errore parametro mancante: RESISTOR_1 (valore).'',
         loopStore @ [Cluster \<lparr>cluster_x = 0, cluster_y = 0, cluster_count = 2\<rparr>,
                      Cluster \<lparr>cluster_x = 40, cluster_y = 0, cluster_count = 2\<rparr>])"
  by code_simp

text \<open>A pass on the store returns, with the verdict of the pass on the components read.\<close>

lemma validationPass_on_refines:
  assumes "readComponents h components = Some cs"
  shows "\<exists>v h'. validationPass_on h components = Some (v, h')
           \<and> validationPass cs = Some v
           \<and> take (length h) h' = h
           \<and> readComponents h' components = Some cs"
proof -
  have len: "length cs = length components" by (rule readComponents_bound(2) [OF assms])
  obtain vi where vi: "validateCircuitIntegrity cs = Some vi"
    using validateCircuitIntegrity_returns [of cs] by auto
  have "\<exists>h'. validateCircuitIntegrity_on h components = Some (vi, h') \<and> take (length h) h' = h"
  proof (cases "components = []")
    case True
    with len vi show ?thesis
      by (simp add: validateCircuitIntegrity_on_def validateCircuitIntegrity_def)
  next
    case False
    from buildTopology_on_refines [OF assms] obtain h' st' where
      b: "buildTopology_on h components = Some (h', st')" "take (length h) h' = h"
        "topologyOf h' st' = buildTopology cs"
      by blast
    from readComponents_take [OF assms b(2)] have r: "readComponents h' components = Some cs" .
    from False len have "cs \<noteq> []" by auto
    with vi have "checkTopology cs (buildTopology cs) = Some vi"
      by (simp add: validateCircuitIntegrity_def)
    then have "checkTopology cs st' = Some vi"
      unfolding b(3) [symmetric] checkTopology_topologyOf .
    with False b(1,2) r show ?thesis
      by (simp add: validateCircuitIntegrity_on_def)
  qed
  then obtain h' where i: "validateCircuitIntegrity_on h components = Some (vi, h')"
    "take (length h) h' = h"
    by blast
  from readComponents_take [OF assms i(2)] have r: "readComponents h' components = Some cs" .
  show ?thesis
  proof (cases vi)
    case Ok
    with i(1) r have "validationPass_on h components = Some (validateComponentParams cs, h')"
      by (simp add: validationPass_on_def validateComponentParams_on_def)
    moreover from Ok vi have "validationPass cs = Some (validateComponentParams cs)"
      by (simp add: validationPass_def)
    ultimately show ?thesis using i(2) r by blast
  next
    case (Fail error)
    with i(1) have "validationPass_on h components = Some (Fail error, h')"
      by (simp add: validationPass_on_def)
    moreover from Fail vi have "validationPass cs = Some (Fail error)"
      by (simp add: validationPass_def)
    ultimately show ?thesis using i(2) r by blast
  qed
qed

text \<open>
  Two walks over the same components, the second on the store that the first left: the same
  node ids and the same clusters, behind new references.
\<close>

lemma buildTopology_on_twice:
  assumes "readComponents h components = Some cs"
  shows "\<exists>h1 st1 h2 st2. buildTopology_on h components = Some (h1, st1)
           \<and> buildTopology_on h1 components = Some (h2, st2)
           \<and> componentNodes st1 = componentNodes (buildTopology cs)
           \<and> componentNodes st2 = componentNodes (buildTopology cs)
           \<and> clustersOf h1 (clusters st1) = clusters (buildTopology cs)
           \<and> clustersOf h2 (clusters st2) = clusters (buildTopology cs)"
proof -
  from buildTopology_on_refines [OF assms] obtain h1 st1 where
    1: "buildTopology_on h components = Some (h1, st1)" "take (length h) h1 = h"
      "topologyOf h1 st1 = buildTopology cs"
    by blast
  from readComponents_take [OF assms 1(2)] have r: "readComponents h1 components = Some cs" .
  from buildTopology_on_refines [OF r] obtain h2 st2 where
    2: "buildTopology_on h1 components = Some (h2, st2)" "topologyOf h2 st2 = buildTopology cs"
    by blast
  have "componentNodes st1 = componentNodes (buildTopology cs)"
    "clustersOf h1 (clusters st1) = clusters (buildTopology cs)"
    unfolding 1(3) [symmetric] by simp_all
  moreover have "componentNodes st2 = componentNodes (buildTopology cs)"
    "clustersOf h2 (clusters st2) = clusters (buildTopology cs)"
    unfolding 2(2) [symmetric] by simp_all
  ultimately show ?thesis using 1(1) 2(1) by blast
qed

section \<open>The claims of the specification\<close>

subsection \<open>The parameters of a source\<close>

text \<open>
  C1, as the code has it. A voltage source passes \<^const>\<open>getMissingParamReason\<close> exactly when
  its voltage field is a string that is not empty after trimming and the component is not
  flagged voltage-unknown; otherwise the reason is \<open>tensione\<close>.
  \<^const>\<open>normalizeComponent\<close> sets the flag voltage-unknown exactly when the field is blank (and
  the flag current-unknown to the contrary), so a normalised voltage source passes exactly
  when its voltage field is not blank. The same holds for a current source, with the current
  field, the flag current-unknown and the reason \<open>corrente\<close>.
\<close>

theorem source_param_check:
  "(type_c c = ''voltage_source'' \<longrightarrow>
      (getMissingParamReason c = None
         \<longleftrightarrow> (\<exists>s. voltage c = Some s \<and> trim s \<noteq> []) \<and> voltageUnknown c \<noteq> Some True)
      \<and> (getMissingParamReason c = None \<or> getMissingParamReason c = Some ''tensione'')
      \<and> voltageUnknown (normalizeComponent c) = Some (\<not> hasText (voltage c))
      \<and> currentUnknown (normalizeComponent c) = Some (hasText (voltage c))
      \<and> (getMissingParamReason (normalizeComponent c) = None \<longleftrightarrow> hasText (voltage c)))
   \<and> (type_c c = ''current_source'' \<longrightarrow>
      (getMissingParamReason c = None
         \<longleftrightarrow> (\<exists>s. current c = Some s \<and> trim s \<noteq> []) \<and> currentUnknown c \<noteq> Some True)
      \<and> (getMissingParamReason c = None \<or> getMissingParamReason c = Some ''corrente'')
      \<and> currentUnknown (normalizeComponent c) = Some (\<not> hasText (current c))
      \<and> voltageUnknown (normalizeComponent c) = Some (hasText (current c))
      \<and> (getMissingParamReason (normalizeComponent c) = None \<longleftrightarrow> hasText (current c)))"
proof (intro conjI impI)
  assume t: "type_c c = ''voltage_source''"
  then have n: "type_c (normalizeComponent c) = ''voltage_source''"
    by (simp add: normalize_voltage_source)
  show "getMissingParamReason c = None
         \<longleftrightarrow> (\<exists>s. voltage c = Some s \<and> trim s \<noteq> []) \<and> voltageUnknown c \<noteq> Some True"
    using t by (simp add: voltage_source_reason hasText_iff)
  show "getMissingParamReason c = None \<or> getMissingParamReason c = Some ''tensione''"
    using t by (simp add: voltage_source_reason)
  show "voltageUnknown (normalizeComponent c) = Some (\<not> hasText (voltage c))"
    using t by (simp add: normalize_voltage_source)
  show "currentUnknown (normalizeComponent c) = Some (hasText (voltage c))"
    using t by (simp add: normalize_voltage_source)
  show "getMissingParamReason (normalizeComponent c) = None \<longleftrightarrow> hasText (voltage c)"
    unfolding voltage_source_reason [OF n] using t by (simp add: normalize_voltage_source)
next
  assume t: "type_c c = ''current_source''"
  then have n: "type_c (normalizeComponent c) = ''current_source''"
    by (simp add: normalize_current_source)
  show "getMissingParamReason c = None
         \<longleftrightarrow> (\<exists>s. current c = Some s \<and> trim s \<noteq> []) \<and> currentUnknown c \<noteq> Some True"
    using t by (simp add: current_source_reason hasText_iff)
  show "getMissingParamReason c = None \<or> getMissingParamReason c = Some ''corrente''"
    using t by (simp add: current_source_reason)
  show "currentUnknown (normalizeComponent c) = Some (\<not> hasText (current c))"
    using t by (simp add: normalize_current_source)
  show "voltageUnknown (normalizeComponent c) = Some (hasText (current c))"
    using t by (simp add: normalize_current_source)
  show "getMissingParamReason (normalizeComponent c) = None \<longleftrightarrow> hasText (current c)"
    unfolding current_source_reason [OF n] using t by (simp add: normalize_current_source)
qed

theorem source_param_check_witness:
  "getMissingParamReason ((component ''voltage_source'' (0, 0) (40, 0))\<lparr>voltage := Some ''12''\<rparr>) = None
   \<and> getMissingParamReason (component ''current_source'' (0, 0) (40, 0)) = Some ''corrente''"
proof -
  let ?v = "(component ''voltage_source'' (0, 0) (40, 0))\<lparr>voltage := Some ''12''\<rparr>"
  let ?i = "component ''current_source'' (0, 0) (40, 0)"
  have v: "type_c ?v = ''voltage_source''" "voltage ?v = Some ''12''" "trim ''12'' \<noteq> []"
    "voltageUnknown ?v \<noteq> Some True"
    by (simp_all add: component_def trim_def isWhiteSpace_def)
  have i: "type_c ?i = ''current_source''" "current ?i = None"
    by (simp_all add: component_def)
  from source_param_check [of ?v] v source_param_check [of ?i] i
  show ?thesis by auto
qed

text \<open>
  A voltage source with an absent voltage field and no flag is rejected, before and after
  the normalisation (which flags it voltage-unknown), and so is one that is flagged
  voltage-unknown: a set flag does not make the check succeed.
\<close>

theorem voltage_source_unknown_counterexample:
  "getMissingParamReason (component ''voltage_source'' (0, 0) (40, 0)) = Some ''tensione''
   \<and> getMissingParamReason ((component ''voltage_source'' (0, 0) (40, 0))\<lparr>voltageUnknown := Some True\<rparr>)
       = Some ''tensione''
   \<and> voltageUnknown (normalizeComponent (component ''voltage_source'' (0, 0) (40, 0))) = Some True
   \<and> validateComponentParams
         (normalizeComponentsForAnalysis [component ''voltage_source'' (0, 0) (40, 0)])
       = Fail ''Errore parametro mancante: VOLTAGE_SOURCE_1 (tensione).''
   \<and> \<not> (\<forall>c. type_c c = ''voltage_source'' \<longrightarrow>
            (getMissingParamReason c = None
               \<longleftrightarrow> hasText (voltage c) \<or> voltageUnknown c = Some True))"
proof -
  let ?v = "component ''voltage_source'' (0, 0) (40, 0)"
  have 1: "getMissingParamReason ?v = Some ''tensione''"
    by (simp add: component_def getMissingParamReason_def hasText_def)
  have 2: "getMissingParamReason (?v\<lparr>voltageUnknown := Some True\<rparr>) = Some ''tensione''"
    by (simp add: component_def getMissingParamReason_def hasText_def)
  have 3: "voltageUnknown (normalizeComponent ?v) = Some True"
    by (simp add: component_def normalizeComponent_def hasField_def)
  have 4: "validateComponentParams (normalizeComponentsForAnalysis [?v])
       = Fail ''Errore parametro mancante: VOLTAGE_SOURCE_1 (tensione).''"
    by code_simp
  have 5: "type_c (?v\<lparr>voltageUnknown := Some True\<rparr>) = ''voltage_source''"
    "voltageUnknown (?v\<lparr>voltageUnknown := Some True\<rparr>) = Some True"
    by (simp_all add: component_def)
  from 2 5 have "\<not> (\<forall>c. type_c c = ''voltage_source'' \<longrightarrow>
            (getMissingParamReason c = None
               \<longleftrightarrow> hasText (voltage c) \<or> voltageUnknown c = Some True))"
    by (metis option.distinct(1))
  with 1 2 3 4 show ?thesis by blast
qed

subsection \<open>The clustering of the terminals\<close>



subsection \<open>Dangling components\<close>

text \<open>
  C3. On a non-empty list, the member count that \<^verbatim>\<open>terminalCounts\<close> holds for a node is
  the number of terminals assigned to it, and the components collected as dangling are
  those with a node of fewer than two members (\<^const>\<open>isDangling\<close>), each under its
  \<^const>\<open>canonicalLabel\<close>: the trimmed label when that is not empty, and otherwise the kind in
  upper case, an underscore and the index plus one. When there is one, the validation fails
  with \<^const>\<open>danglingMessage\<close> of these names: the first four, joined by commas, and three dots
  after them when there are more.
\<close>

theorem dangling_components_reported:
  assumes "components \<noteq> []"
  shows "(\<forall>k. getCount (terminalCounts (buildTopology components)) k
             = count_list (nodeIds (componentNodes (buildTopology components))) k)
    \<and> danglingComponents components (buildTopology components)
        = Some (map (\<lambda>i. canonicalLabel (components ! i) i)
                 (filter (isDangling (componentNodes (buildTopology components)))
                    [0..<length components]))
    \<and> (danglingNames components \<noteq> []
          \<longleftrightarrow> (\<exists>i<length components. isDangling (componentNodes (buildTopology components)) i))
    \<and> (danglingNames components \<noteq> [] \<longrightarrow>
          validateCircuitIntegrity components
            = Some (Fail (''Errore di integrit'' @ [CHR 0xE0] @ '': componenti/rami scoperti (''
                @ join '', '' (take 4 (danglingNames components))
                @ (if length (danglingNames components) > 4 then ''...'' else [])
                @ '').'')))
    \<and> (\<forall>i<length components.
          canonicalLabel (components ! i) i
            = (if \<exists>l. label (components ! i) = Some l \<and> trim l \<noteq> []
               then trim (the (label (components ! i)))
               else toUpperCase (type_c (components ! i)) @ ''_'' @ numberToString (i + 1)))"
proof (intro conjI)
  note inv = buildTopology_inv [of components]
  show "\<forall>k. getCount (terminalCounts (buildTopology components)) k
             = count_list (nodeIds (componentNodes (buildTopology components))) k"
    using inv(1) by (simp add: topologyInv_def memberCount_def)
  show "danglingComponents components (buildTopology components)
        = Some (map (\<lambda>i. canonicalLabel (components ! i) i)
                 (filter (isDangling (componentNodes (buildTopology components)))
                    [0..<length components]))"
    by (simp add: danglingComponents_names danglingNames_def)
  show "danglingNames components \<noteq> []
          \<longleftrightarrow> (\<exists>i<length components. isDangling (componentNodes (buildTopology components)) i)"
    using danglingNames_empty_iff [of components] by blast
  show "danglingNames components \<noteq> [] \<longrightarrow>
          validateCircuitIntegrity components
            = Some (Fail (''Errore di integrit'' @ [CHR 0xE0] @ '': componenti/rami scoperti (''
                @ join '', '' (take 4 (danglingNames components))
                @ (if length (danglingNames components) > 4 then ''...'' else [])
                @ '').''))"
    using validateCircuitIntegrity_verdict [OF assms]
    by (simp add: danglingMessage_def Let_def)
  show "\<forall>i<length components.
          canonicalLabel (components ! i) i
            = (if \<exists>l. label (components ! i) = Some l \<and> trim l \<noteq> []
               then trim (the (label (components ! i)))
               else toUpperCase (type_c (components ! i)) @ ''_'' @ numberToString (i + 1))"
    by (auto simp: canonicalLabel_def truthy_def Let_def split: option.splits)
qed

theorem dangling_components_reported_witness:
  "danglingNames [component ''resistor'' (0, 0) (40, 0)] = [''RESISTOR_1'']
   \<and> isDangling (componentNodes (buildTopology [component ''resistor'' (0, 0) (40, 0)])) 0
   \<and> validateCircuitIntegrity [component ''resistor'' (0, 0) (40, 0)]
       = Some (Fail (''Errore di integrit'' @ [CHR 0xE0]
           @ '': componenti/rami scoperti (RESISTOR_1).''))
   \<and> validateCircuitIntegrity fiveApart
       = Some (Fail (''Errore di integrit'' @ [CHR 0xE0]
           @ '': componenti/rami scoperti (RESISTOR_1, WIRE_2, CAPACITOR_3, INDUCTOR_4...).''))"
proof -
  let ?cs = "[component ''resistor'' (0, 0) (40, 0)]"
  have n: "?cs \<noteq> []" by simp
  have d: "danglingNames ?cs = [''RESISTOR_1'']" by code_simp
  have j: "join '', '' (take 4 [''RESISTOR_1'']) = ''RESISTOR_1''" by simp
  from dangling_components_reported [OF n] d
  have "\<exists>i<length ?cs. isDangling (componentNodes (buildTopology ?cs)) i" by simp
  then have 1: "isDangling (componentNodes (buildTopology ?cs)) 0" by simp
  from dangling_components_reported [OF n] d j
  have 2: "validateCircuitIntegrity ?cs
       = Some (Fail (''Errore di integrit'' @ [CHR 0xE0]
           @ '': componenti/rami scoperti (RESISTOR_1).''))"
    by simp
  have n5: "fiveApart \<noteq> []" by (simp add: fiveApart_def)
  from dangling_components_reported [OF n5]
  have 3: "validateCircuitIntegrity fiveApart
       = Some (Fail (''Errore di integrit'' @ [CHR 0xE0]
           @ '': componenti/rami scoperti (RESISTOR_1, WIRE_2, CAPACITOR_3, INDUCTOR_4...).''))"
    unfolding fiveApart_names by simp
  from d 1 2 3 show ?thesis by simp
qed

subsection \<open>Connectivity\<close>

text \<open>
  C4. On a non-empty list without dangling components, the adjacency sets hold the edges of
  the component-adjacency graph (two distinct components are joined exactly when they share
  a node id), the traversal from component 0 visits exactly the components that this graph
  reaches from 0, and the validation accepts exactly when these are all the components;
  otherwise it fails with the disconnected-circuit error. In particular it fails when the
  list splits into a first and a second non-empty group with no node id shared between
  them.
\<close>

theorem connectivity_verdict:
  assumes "components \<noteq> []"
    and "\<forall>i<length components. \<not> isDangling (componentNodes (buildTopology components)) i"
  shows "(\<exists>adjacency visited.
            buildAdjacency components (buildTopology components) = Some adjacency
            \<and> adjRel adjacency = componentGraph (componentNodes (buildTopology components))
            \<and> traverse adjacency [0] [0] = Some visited
            \<and> set visited = (componentGraph (componentNodes (buildTopology components)))\<^sup>* `` {0})
    \<and> (validateCircuitIntegrity components = Some Ok
          \<longleftrightarrow> (\<forall>j<length components.
                 (0, j) \<in> (componentGraph (componentNodes (buildTopology components)))\<^sup>*))
    \<and> (validateCircuitIntegrity components = Some Ok
          \<or> validateCircuitIntegrity components = Some (Fail disconnectedMessage))
    \<and> (\<forall>k. 0 < k \<and> k < length components
           \<and> (\<forall>i j. i < k \<and> k \<le> j
                 \<longrightarrow> \<not> sharesNode (componentNodes (buildTopology components)) i j)
         \<longrightarrow> validateCircuitIntegrity components = Some (Fail disconnectedMessage))"
proof (intro conjI)
  let ?nodes = "componentNodes (buildTopology components)"
  from assms(2) have d: "danglingNames components = []"
    by (simp add: danglingNames_empty_iff)
  note v = validateCircuitIntegrity_verdict [OF assms(1), unfolded d]
  have len: "length ?nodes = length components" by (rule buildTopology_inv)
  show "\<exists>adjacency visited.
            buildAdjacency components (buildTopology components) = Some adjacency
            \<and> adjRel adjacency = componentGraph ?nodes
            \<and> traverse adjacency [0] [0] = Some visited
            \<and> set visited = (componentGraph ?nodes)\<^sup>* `` {0}"
  proof -
    from buildAdjacency_Some [of components] obtain adj where
      adj: "buildAdjacency components (buildTopology components) = Some adj"
        "length adj = length components" "adjRel adj = componentGraph ?nodes"
      by blast
    have bound: "\<forall>v w. (v, w) \<in> adjRel adj \<longrightarrow> w < length adj"
      unfolding adj(3) using len adj(2) componentGraph_bound [of _ _ ?nodes] by auto
    from assms(1) adj(2) have pos: "0 < length adj" by simp
    from traverse_from_first [OF pos bound] obtain vs where
      "traverse adj [0] [0] = Some vs" "set vs = (adjRel adj)\<^sup>* `` {0}"
      by blast
    with adj show ?thesis by auto
  qed
  show ok: "validateCircuitIntegrity components = Some Ok
          \<longleftrightarrow> (\<forall>j<length components. (0, j) \<in> (componentGraph ?nodes)\<^sup>*)"
    unfolding v by simp
  show "validateCircuitIntegrity components = Some Ok
          \<or> validateCircuitIntegrity components = Some (Fail disconnectedMessage)"
    unfolding v by simp
  show "\<forall>k. 0 < k \<and> k < length components
           \<and> (\<forall>i j. i < k \<and> k \<le> j \<longrightarrow> \<not> sharesNode ?nodes i j)
         \<longrightarrow> validateCircuitIntegrity components = Some (Fail disconnectedMessage)"
  proof (intro allI impI)
    fix k
    assume k: "0 < k \<and> k < length components
           \<and> (\<forall>i j. i < k \<and> k \<le> j \<longrightarrow> \<not> sharesNode ?nodes i j)"
    have "(0, k) \<notin> (componentGraph ?nodes)\<^sup>*"
    proof
      assume "(0, k) \<in> (componentGraph ?nodes)\<^sup>*"
      with separated_unreachable [of k ?nodes k] k show False by blast
    qed
    with k have "\<not> (\<forall>j<length components. (0, j) \<in> (componentGraph ?nodes)\<^sup>*)"
      by blast
    then show "validateCircuitIntegrity components = Some (Fail disconnectedMessage)"
      unfolding v by simp
  qed
qed

theorem connectivity_verdict_witness:
  "validateCircuitIntegrity oneLoop = Some Ok
   \<and> (0, 1) \<in> (componentGraph (componentNodes (buildTopology oneLoop)))\<^sup>*
   \<and> validateCircuitIntegrity twoLoops = Some (Fail disconnectedMessage)"
proof -
  have n1: "oneLoop \<noteq> []" "length oneLoop = 2" by (simp_all add: oneLoop_def)
  have d1: "\<forall>i<length oneLoop. \<not> isDangling (componentNodes (buildTopology oneLoop)) i"
    unfolding oneLoop_nodes n1(2)
    by (simp add: isDangling_def memberCount_def nodeIds_def less_Suc_eq numeral_2_eq_2)
  from connectivity_verdict [OF n1(1) d1] oneLoop_verdict n1(2)
  have 1: "(0, 1) \<in> (componentGraph (componentNodes (buildTopology oneLoop)))\<^sup>*"
    by simp
  have n2: "twoLoops \<noteq> []" "length twoLoops = 4" by (simp_all add: twoLoops_def)
  have d2: "\<forall>i<length twoLoops. \<not> isDangling (componentNodes (buildTopology twoLoops)) i"
    unfolding twoLoops_nodes n2(2)
    by (simp add: isDangling_def memberCount_def nodeIds_def less_Suc_eq numeral_2_eq_2
        numeral_3_eq_3 eval_nat_numeral)
  have s2: "\<forall>i j. i < 2 \<and> 2 \<le> j
      \<longrightarrow> \<not> sharesNode (componentNodes (buildTopology twoLoops)) i j"
  proof (intro allI impI)
    fix i j :: nat
    assume a: "i < 2 \<and> 2 \<le> j"
    show "\<not> sharesNode (componentNodes (buildTopology twoLoops)) i j"
    proof
      assume s: "sharesNode (componentNodes (buildTopology twoLoops)) i j"
      then have "j < 4" by (simp add: sharesNode_def twoLoops_nodes)
      with a have "i = 0 \<or> i = 1" "j = 2 \<or> j = 3" by auto
      with s show False
        by (auto simp: sharesNode_def twoLoops_nodes)
    qed
  qed
  from connectivity_verdict [OF n2(1) d2]
  have "(0::nat) < 2 \<and> 2 < length twoLoops
           \<and> (\<forall>i j. i < 2 \<and> 2 \<le> j
                 \<longrightarrow> \<not> sharesNode (componentNodes (buildTopology twoLoops)) i j)
         \<longrightarrow> validateCircuitIntegrity twoLoops = Some (Fail disconnectedMessage)"
    by blast
  with s2 n2(2)
  have 2: "validateCircuitIntegrity twoLoops = Some (Fail disconnectedMessage)"
    by simp
  from oneLoop_verdict 1 2 show ?thesis by simp
qed

subsection \<open>The unknown flags of a source\<close>

text \<open>
  C5, as the code has it. For a voltage or current source, \<^const>\<open>normalizeComponent\<close> sets
  both flags from the emptiness of the source's own field, whatever the flags were. The
  inspector (\<^const>\<open>renderComponent_unknowns\<close>) and \<^const>\<open>buildLabeledComponent\<close> (through
  \<^const>\<open>sourceUnknowns\<close>, whenever it does not return the component as it is, which it never
  does for a component without a label) do not read the fields: an absent flag counts as
  true, and when the two flags are then equal a voltage source becomes current-unknown and
  voltage-known, a current source voltage-unknown and current-known. At each site exactly
  one of the two flags is true afterwards.
\<close>

theorem unknown_flags_exclusive:
  "type_c c = ''voltage_source'' \<or> type_c c = ''current_source'' \<Longrightarrow>
     (\<exists>cu vu. currentUnknown (normalizeComponent c) = Some cu
        \<and> voltageUnknown (normalizeComponent c) = Some vu \<and> cu \<noteq> vu
        \<and> vu = (if type_c c = ''voltage_source'' then \<not> hasField (voltage c) else hasField (current c)))
   \<and> (\<exists>cu vu. renderComponent_unknowns (Some c) = Some (cu, vu) \<and> cu \<noteq> vu
        \<and> sourceUnknowns c = (cu, vu)
        \<and> cu = (if flagOrTrue (currentUnknown c) = flagOrTrue (voltageUnknown c)
                 then type_c c = ''voltage_source'' else flagOrTrue (currentUnknown c))
        \<and> (buildLabeledComponent c existing = c
            \<or> currentUnknown (buildLabeledComponent c existing) = Some cu
              \<and> voltageUnknown (buildLabeledComponent c existing) = Some vu)
        \<and> (label c = None \<longrightarrow>
              currentUnknown (buildLabeledComponent c existing) = Some cu
              \<and> voltageUnknown (buildLabeledComponent c existing) = Some vu))"
proof (intro conjI)
  assume t: "type_c c = ''voltage_source'' \<or> type_c c = ''current_source''"
  then show "\<exists>cu vu. currentUnknown (normalizeComponent c) = Some cu
        \<and> voltageUnknown (normalizeComponent c) = Some vu \<and> cu \<noteq> vu
        \<and> vu = (if type_c c = ''voltage_source'' then \<not> hasField (voltage c) else hasField (current c))"
    by (auto simp: normalizeComponent_def Let_def)
  obtain cu vu where s: "sourceUnknowns c = (cu, vu)" by (cases "sourceUnknowns c")
  from t s have r: "renderComponent_unknowns (Some c) = Some (cu, vu)"
    by (auto simp: renderComponent_unknowns_def sourceUnknowns_def isInspectableComponent_def
        Let_def split: if_splits)
  from t s have ne: "cu \<noteq> vu"
    by (auto simp: sourceUnknowns_def Let_def split: if_splits)
  from t s have o: "cu = (if flagOrTrue (currentUnknown c) = flagOrTrue (voltageUnknown c)
                 then type_c c = ''voltage_source'' else flagOrTrue (currentUnknown c))"
    by (auto simp: sourceUnknowns_def Let_def split: if_splits)
  from t obtain prefix where p: "getLabelPrefix (type_c c) = Some prefix"
    by (auto simp: getLabelPrefix_def)
  have b: "buildLabeledComponent c existing = c
            \<or> currentUnknown (buildLabeledComponent c existing) = Some cu
              \<and> voltageUnknown (buildLabeledComponent c existing) = Some vu"
    using p s by (simp add: buildLabeledComponent_def Let_def)
  have l: "label c = None \<longrightarrow>
              currentUnknown (buildLabeledComponent c existing) = Some cu
              \<and> voltageUnknown (buildLabeledComponent c existing) = Some vu"
    using p s by (simp add: buildLabeledComponent_def Let_def truthy_def)
  show "\<exists>cu vu. renderComponent_unknowns (Some c) = Some (cu, vu) \<and> cu \<noteq> vu
        \<and> sourceUnknowns c = (cu, vu)
        \<and> cu = (if flagOrTrue (currentUnknown c) = flagOrTrue (voltageUnknown c)
                 then type_c c = ''voltage_source'' else flagOrTrue (currentUnknown c))
        \<and> (buildLabeledComponent c existing = c
            \<or> currentUnknown (buildLabeledComponent c existing) = Some cu
              \<and> voltageUnknown (buildLabeledComponent c existing) = Some vu)
        \<and> (label c = None \<longrightarrow>
              currentUnknown (buildLabeledComponent c existing) = Some cu
              \<and> voltageUnknown (buildLabeledComponent c existing) = Some vu)"
    by (rule exI [of _ cu], rule exI [of _ vu]) (intro conjI r ne s o b l)
qed

theorem unknown_flags_exclusive_witness:
  "renderComponent_unknowns (Some (component ''current_source'' (0, 0) (40, 0))) = Some (False, True)
   \<and> sourceUnknowns (component ''current_source'' (0, 0) (40, 0)) = (False, True)
   \<and> currentUnknown (buildLabeledComponent (component ''current_source'' (0, 0) (40, 0)) []) = Some False
   \<and> voltageUnknown (buildLabeledComponent (component ''current_source'' (0, 0) (40, 0)) []) = Some True"
proof -
  let ?i = "component ''current_source'' (0, 0) (40, 0)"
  have i: "type_c ?i = ''voltage_source'' \<or> type_c ?i = ''current_source''"
    "type_c ?i \<noteq> ''voltage_source''" "label ?i = None"
    "flagOrTrue (currentUnknown ?i) = flagOrTrue (voltageUnknown ?i)"
    by (simp_all add: component_def)
  from unknown_flags_exclusive [OF i(1), of "[]"] i(2-4)
  show ?thesis by auto
qed

text \<open>
  A voltage source with no flags and no voltage: the inspector and
  \<^const>\<open>buildLabeledComponent\<close> make it current-unknown and voltage-known, not voltage-unknown
  and current-known, and the empty voltage field plays no part.
\<close>

theorem unknown_flags_orientation_counterexample:
  "renderComponent_unknowns (Some (component ''voltage_source'' (0, 0) (40, 0))) = Some (True, False)
   \<and> currentUnknown (buildLabeledComponent (component ''voltage_source'' (0, 0) (40, 0)) []) = Some True
   \<and> voltageUnknown (buildLabeledComponent (component ''voltage_source'' (0, 0) (40, 0)) []) = Some False
   \<and> voltage (component ''voltage_source'' (0, 0) (40, 0)) = None
   \<and> currentUnknown (component ''voltage_source'' (0, 0) (40, 0)) = None
   \<and> voltageUnknown (component ''voltage_source'' (0, 0) (40, 0)) = None"
  by code_simp

subsection \<open>The empty circuit\<close>

text \<open>
  C6. The empty component list always fails with the empty-circuit error. The test on the
  length is the first statement of \<^const>\<open>validateCircuitIntegrity\<close>, ahead of the clustering:
  the verdict for the empty list is fixed without \<^const>\<open>buildTopology\<close>, and no other list
  gets this error.
\<close>

theorem empty_circuit_error:
  "validateCircuitIntegrity [] = Some (Fail ''Circuito vuoto: aggiungi almeno un componente.'')
   \<and> (validateCircuitIntegrity components = Some (Fail emptyCircuitMessage)
        \<longleftrightarrow> components = [])"
  by (auto simp: validateCircuitIntegrity_def checkTopology_def Let_def emptyCircuitMessage_def
        danglingMessage_def
        disconnectedMessage_def split: option.splits if_splits)

subsection \<open>The parameters of the passive components\<close>

text \<open>
  C7, as the code has it. A resistor, capacitor or inductor passes
  \<^const>\<open>getMissingParamReason\<close> exactly when its value field is a string that is not empty
  after trimming (the string is not parsed), and otherwise the reason is \<open>valore\<close>; a wire
  always passes. The list passes
  \<^const>\<open>validateComponentParams\<close> exactly when each component does. A resistor with an absent
  or empty value fails with the message that names it and the value field, and the same
  resistor with a non-empty string of digits and dots passes.
\<close>

theorem passive_value_check:
  "(type_c c = ''resistor'' \<or> type_c c = ''capacitor'' \<or> type_c c = ''inductor'' \<longrightarrow>
      (getMissingParamReason c = None \<longleftrightarrow> (\<exists>s. value_c c = Some s \<and> trim s \<noteq> []))
      \<and> (getMissingParamReason c = None \<or> getMissingParamReason c = Some ''valore''))
   \<and> (type_c c = ''wire'' \<longrightarrow> getMissingParamReason c = None)
   \<and> (validateComponentParams components = Ok
        \<longleftrightarrow> (\<forall>k\<in>set components. getMissingParamReason k = None))
   \<and> (type_c r = ''resistor'' \<and> (value_c r = None \<or> value_c r = Some []) \<longrightarrow>
        validateComponentParams [r]
          = Fail (''Errore parametro mancante: '' @ canonicalLabel r 0 @ '' (valore).''))
   \<and> (type_c r = ''resistor'' \<and> s \<noteq> [] \<and> list_all (\<lambda>d. isDigit d \<or> d = CHR ''.'') s \<longrightarrow>
        validateComponentParams [r\<lparr>value_c := Some s\<rparr>] = Ok)"
proof (intro conjI impI)
  assume "type_c c = ''resistor'' \<or> type_c c = ''capacitor'' \<or> type_c c = ''inductor''"
  then show "getMissingParamReason c = None \<longleftrightarrow> (\<exists>s. value_c c = Some s \<and> trim s \<noteq> [])"
    by (auto simp: getMissingParamReason_def hasText_def split: option.splits)
next
  assume "type_c c = ''resistor'' \<or> type_c c = ''capacitor'' \<or> type_c c = ''inductor''"
  then show "getMissingParamReason c = None \<or> getMissingParamReason c = Some ''valore''"
    by (auto simp: getMissingParamReason_def)
next
  assume "type_c c = ''wire''"
  then show "getMissingParamReason c = None"
    by (simp add: getMissingParamReason_def)
next
  show "validateComponentParams components = Ok
        \<longleftrightarrow> (\<forall>k\<in>set components. getMissingParamReason k = None)"
    by (rule validateComponentParams_Ok)
next
  assume "type_c r = ''resistor'' \<and> (value_c r = None \<or> value_c r = Some [])"
  then have "getMissingParamReason r = Some ''valore''"
    by (auto simp: getMissingParamReason_def hasText_def trim_Nil)
  then show "validateComponentParams [r]
          = Fail (''Errore parametro mancante: '' @ canonicalLabel r 0 @ '' (valore).'')"
    by (simp add: validateComponentParams_single)
next
  assume a: "type_c r = ''resistor'' \<and> s \<noteq> [] \<and> list_all (\<lambda>d. isDigit d \<or> d = CHR ''.'') s"
  have "\<not> isWhiteSpace d" if "isDigit d \<or> d = CHR ''.''" for d
    using that by (auto simp: isDigit_def isWhiteSpace_def)
  with a have "\<not> list_ex isWhiteSpace s"
    by (auto simp: list_all_iff list_ex_iff)
  then have "trim s = s" by (rule trim_no_white)
  with a have "getMissingParamReason (r\<lparr>value_c := Some s\<rparr>) = None"
    by (simp add: getMissingParamReason_def hasText_def)
  then show "validateComponentParams [r\<lparr>value_c := Some s\<rparr>] = Ok"
    by (simp add: validateComponentParams_single)
qed

theorem passive_value_check_witness:
  "getMissingParamReason (component ''resistor'' (0, 0) (40, 0)) = Some ''valore''
   \<and> getMissingParamReason (component ''wire'' (0, 0) (40, 0)) = None
   \<and> validateComponentParams [component ''resistor'' (0, 0) (40, 0)]
       = Fail ''Errore parametro mancante: RESISTOR_1 (valore).''
   \<and> validateComponentParams [(component ''resistor'' (0, 0) (40, 0))\<lparr>value_c := Some ''4.7''\<rparr>] = Ok"
proof -
  let ?r = "component ''resistor'' (0, 0) (40, 0)"
  have r: "type_c ?r = ''resistor''" "value_c ?r = None"
    by (simp_all add: component_def)
  have w: "type_c (component ''wire'' (0, 0) (40, 0)) = ''wire''"
    by (simp add: component_def)
  have d: "''4.7'' \<noteq> [] \<and> list_all (\<lambda>d. isDigit d \<or> d = CHR ''.'') ''4.7''"
    by (simp add: isDigit_def)
  from passive_value_check [of ?r "[]" ?r "''4.7''"] r d resistor_label
    passive_value_check [of "component ''wire'' (0, 0) (40, 0)" "[]" ?r "''4.7''"] w
  show ?thesis by auto
qed

text \<open>
  A resistor whose value is two question marks passes the check and the list with it passes
  the parameter validation, although the string is no number: the sanitiser of the
  inspector's numeric fields keeps nothing of it. So the check does not succeed only for
  strings that a number can be read from.
\<close>

theorem unparsable_value_counterexample:
  "getMissingParamReason ((component ''resistor'' (0, 0) (40, 0))\<lparr>value_c := Some ''??''\<rparr>) = None
   \<and> validateComponentParams [(component ''resistor'' (0, 0) (40, 0))\<lparr>value_c := Some ''??''\<rparr>] = Ok
   \<and> sanitizeNumericInput ''??'' = []
   \<and> \<not> (\<forall>c. type_c c = ''resistor'' \<longrightarrow>
           (getMissingParamReason c = None
              \<longleftrightarrow> (\<exists>s. value_c c = Some s \<and> s \<noteq> [] \<and> sanitizeNumericInput s = s)))"
proof -
  let ?r = "(component ''resistor'' (0, 0) (40, 0))\<lparr>value_c := Some ''??''\<rparr>"
  have 1: "getMissingParamReason ?r = None" by code_simp
  have 2: "validateComponentParams [?r] = Ok" by code_simp
  have 3: "sanitizeNumericInput ''??'' = []" by code_simp
  have t: "type_c ?r = ''resistor''" "value_c ?r = Some ''??''"
    by (simp_all add: component_def)
  have "\<not> (\<exists>s. value_c ?r = Some s \<and> s \<noteq> [] \<and> sanitizeNumericInput s = s)"
    using 3 t(2) by auto
  with 1 t(1) have 4: "\<not> (\<forall>c. type_c c = ''resistor'' \<longrightarrow>
           (getMissingParamReason c = None
              \<longleftrightarrow> (\<exists>s. value_c c = Some s \<and> s \<noteq> [] \<and> sanitizeNumericInput s = s)))"
    by blast
  from 1 2 3 4 show ?thesis by blast
qed

subsection \<open>A component with both terminals on one node\<close>

text \<open>
  C8. The member count of a node counts terminals. A list of one component whose terminal B
  is within the tolerance of its terminal A has one node, which holds both terminals: its
  member count is 2, the component is not dangling, the adjacency graph has one vertex and
  no edge, and the validation accepts the list. Such a list exists.
\<close>

theorem single_component_accepted:
  "(withinTolerance \<lparr>cluster_x = pin_x (pinA c), cluster_y = pin_y (pinA c), cluster_count = 1\<rparr>
        (pin_x (pinB c)) (pin_y (pinB c)) \<longrightarrow>
      componentNodes (buildTopology [c]) = [(0, 0)]
      \<and> length (clusters (buildTopology [c])) = 1
      \<and> getCount (terminalCounts (buildTopology [c])) 0 = 2
      \<and> danglingComponents [c] (buildTopology [c]) = Some []
      \<and> buildAdjacency [c] (buildTopology [c]) = Some [[]]
      \<and> validateCircuitIntegrity [c] = Some Ok)
   \<and> (\<exists>k. withinTolerance \<lparr>cluster_x = pin_x (pinA k), cluster_y = pin_y (pinA k),
                cluster_count = 1\<rparr> (pin_x (pinB k)) (pin_y (pinB k))
          \<and> pinA k \<noteq> pinB k
          \<and> validateCircuitIntegrity [k] = Some Ok)"
proof (intro conjI impI)
  assume w: "withinTolerance
      \<lparr>cluster_x = pin_x (pinA c), cluster_y = pin_y (pinA c), cluster_count = 1\<rparr>
      (pin_x (pinB c)) (pin_y (pinB c))"
  note t = single_close_topology [OF w]
  note inv = buildTopology_inv [of "[c]"]
  show "componentNodes (buildTopology [c]) = [(0, 0)]" by (rule t(1))
  show "length (clusters (buildTopology [c])) = 1" by (rule t(2))
  show c: "getCount (terminalCounts (buildTopology [c])) 0 = 2"
    using inv(1) by (simp add: topologyInv_def t(1) memberCount_def nodeIds_def)
  have nd: "\<not> isDangling (componentNodes (buildTopology [c])) 0"
    by (simp add: t(1) isDangling_def memberCount_def nodeIds_def)
  then have d: "danglingNames [c] = []"
    by (simp add: danglingNames_empty_iff)
  then show "danglingComponents [c] (buildTopology [c]) = Some []"
    by (simp add: danglingComponents_names)
  from buildAdjacency_Some [of "[c]"] obtain adj where
    adj: "buildAdjacency [c] (buildTopology [c]) = Some adj" "length adj = 1"
      "adjRel adj = componentGraph (componentNodes (buildTopology [c]))"
    by auto
  have "componentGraph (componentNodes (buildTopology [c])) = {}"
    by (auto simp: componentGraph_def sharesNode_def t(1))
  with adj(3) have "set (adj ! 0) = {}"
    using adj(2) by (auto simp: adjRel_def)
  with adj(2) have "adj = [[]]"
    by (cases adj) auto
  with adj(1) show "buildAdjacency [c] (buildTopology [c]) = Some [[]]" by simp
  show "validateCircuitIntegrity [c] = Some Ok"
    using validateCircuitIntegrity_verdict [of "[c]"] d by simp
next
  let ?k = "component ''resistor'' (0, 0) (3, 4)"
  have "withinTolerance \<lparr>cluster_x = pin_x (pinA ?k), cluster_y = pin_y (pinA ?k),
                cluster_count = 1\<rparr> (pin_x (pinB ?k)) (pin_y (pinB ?k))"
    by (simp add: withinTolerance_squared tolerance2_def CLUSTER_TOLERANCE_def component_def)
  moreover have "pinA ?k \<noteq> pinB ?k" by (simp add: component_def)
  moreover have "validateCircuitIntegrity [?k] = Some Ok" by code_simp
  ultimately show "\<exists>k. withinTolerance \<lparr>cluster_x = pin_x (pinA k), cluster_y = pin_y (pinA k),
                cluster_count = 1\<rparr> (pin_x (pinB k)) (pin_y (pinB k))
          \<and> pinA k \<noteq> pinB k
          \<and> validateCircuitIntegrity [k] = Some Ok"
    by blast
qed

theorem single_component_accepted_witness:
  "validateCircuitIntegrity [component ''resistor'' (0, 0) (3, 4)] = Some Ok
   \<and> componentNodes (buildTopology [component ''resistor'' (0, 0) (3, 4)]) = [(0, 0)]
   \<and> getCount (terminalCounts (buildTopology [component ''resistor'' (0, 0) (3, 4)])) 0 = 2"
proof -
  let ?k = "component ''resistor'' (0, 0) (3, 4)"
  have "withinTolerance \<lparr>cluster_x = pin_x (pinA ?k), cluster_y = pin_y (pinA ?k),
                cluster_count = 1\<rparr> (pin_x (pinB ?k)) (pin_y (pinB ?k))"
    by (simp add: withinTolerance_squared tolerance2_def CLUSTER_TOLERANCE_def component_def)
  with single_component_accepted [of ?k] show ?thesis by blast
qed

subsection \<open>The components after a validation pass\<close>

text \<open>
  C9. A validation pass on a store, given an array of references to components: it returns,
  its verdict is that of \<^const>\<open>validationPass\<close> on the components, and every object that the
  store held before the pass is the same after it (the pass only adds its clusters behind
  them, and updates those). So each component, with its id, kind, terminal coordinates, label
  and parameter fields, is what it was.
\<close>

theorem validation_leaves_components:
  assumes "readComponents h components = Some cs"
  shows "\<exists>v h'. validationPass_on h components = Some (v, h')
           \<and> validationPass cs = Some v
           \<and> take (length h) h' = h
           \<and> readComponents h' components = Some cs
           \<and> (\<forall>r<length h. h' ! r = h ! r)"
proof -
  from validationPass_on_refines [OF assms] obtain v h' where
    p: "validationPass_on h components = Some (v, h')" "validationPass cs = Some v"
      "take (length h) h' = h" "readComponents h' components = Some cs"
    by blast
  have "\<forall>r<length h. h' ! r = h ! r"
  proof (intro allI impI)
    fix r assume "r < length h"
    then have "take (length h) h' ! r = h' ! r" by simp
    with p(3) show "h' ! r = h ! r" by simp
  qed
  with p show ?thesis by blast
qed

theorem validation_leaves_components_witness:
  "readComponents loopStore [0, 1] = Some oneLoop
   \<and> validationPass oneLoop = Some (Fail ''Errore parametro mancante: RESISTOR_1 (valore).'')
   \<and> validationPass_on loopStore [0, 1]
       = Some (Fail ''Errore parametro mancante: RESISTOR_1 (valore).'',
           loopStore @ [Cluster \<lparr>cluster_x = 0, cluster_y = 0, cluster_count = 2\<rparr>,
                        Cluster \<lparr>cluster_x = 40, cluster_y = 0, cluster_count = 2\<rparr>])"
proof -
  have r: "readComponents loopStore [0, 1] = Some oneLoop"
    by (simp add: readComponents_def componentAt_def loopStore_def oneLoop_def)
  from validation_leaves_components [OF r] loopStore_pass r
  show ?thesis by auto
qed

subsection \<open>Two passes on the same components\<close>

text \<open>
  C10. The verdict of a click (the result, with its message and the names in it) is
  \<^const>\<open>validationPass\<close> of the normalised components of the canvas: it depends on no state of
  the module or the page, on no clock and on no timer, and a pass always returns. So a
  second click on the same components gives the verdict of the first, whatever the first
  left behind. The node of every terminal is a function of the terminal positions alone:
  two lists with the same terminal points get the same clusters and the same node ids.
  On a store, a second pass over the same components, run on the store that the first pass
  left with its clusters in it, gives the same verdict, the same node ids and the same
  clusters.
\<close>

theorem validation_deterministic:
  "validationPass components \<noteq> None
   \<and> map_option fst (analyzeClick components now timer s)
       = validationPass (normalizeComponentsForAnalysis components)
   \<and> map_option fst (analyzeClick components now timer s)
       = map_option fst (analyzeClick components now' timer' s')
   \<and> (\<forall>v s1. analyzeClick components now timer s = Some (v, s1) \<longrightarrow>
         map_option fst (analyzeClick components now' timer' s1) = Some v)
   \<and> (terminalPoints components = terminalPoints components' \<longrightarrow>
         clusters (buildTopology components) = clusters (buildTopology components')
         \<and> componentNodes (buildTopology components) = componentNodes (buildTopology components'))
   \<and> (readComponents h refs = Some components \<longrightarrow>
         (\<exists>v h1 h2. validationPass_on h refs = Some (v, h1)
            \<and> validationPass_on h1 refs = Some (v, h2))
         \<and> (\<exists>h1 st1 h2 st2. buildTopology_on h refs = Some (h1, st1)
            \<and> buildTopology_on h1 refs = Some (h2, st2)
            \<and> componentNodes st1 = componentNodes st2
            \<and> clustersOf h1 (clusters st1) = clustersOf h2 (clusters st2)))"
proof (intro conjI allI impI)
  show "validationPass components \<noteq> None"
    using validateCircuitIntegrity_returns [of components]
    by (auto simp: validationPass_def split: option.splits verdict.splits)
  show "map_option fst (analyzeClick components now timer s)
       = validationPass (normalizeComponentsForAnalysis components)"
    by (rule analyzeClick_verdict)
  show "map_option fst (analyzeClick components now timer s)
       = map_option fst (analyzeClick components now' timer' s')"
    by (simp only: analyzeClick_verdict)
next
  fix v s1
  assume "analyzeClick components now timer s = Some (v, s1)"
  then have "map_option fst (analyzeClick components now timer s) = Some v" by simp
  then show "map_option fst (analyzeClick components now' timer' s1) = Some v"
    by (simp only: analyzeClick_verdict)
next
  assume t: "terminalPoints components = terminalPoints components'"
  obtain final ids where c: "clusterAll [] (terminalPoints components) = (final, ids)"
    by (cases "clusterAll [] (terminalPoints components)")
  from buildTopology_clusterAll [OF c] buildTopology_clusterAll [OF c [unfolded t]]
  show "clusters (buildTopology components) = clusters (buildTopology components')"
    and "componentNodes (buildTopology components) = componentNodes (buildTopology components')"
    by (auto intro: nodeIds_inject)
next
  assume r: "readComponents h refs = Some components"
  from validationPass_on_refines [OF r] obtain v h1 where
    1: "validationPass_on h refs = Some (v, h1)" "validationPass components = Some v"
      "readComponents h1 refs = Some components"
    by blast
  from validationPass_on_refines [OF 1(3)] 1(2) obtain h2 where
    "validationPass_on h1 refs = Some (v, h2)"
    by auto
  with 1(1) show "\<exists>v h1 h2. validationPass_on h refs = Some (v, h1)
            \<and> validationPass_on h1 refs = Some (v, h2)"
    by blast
  from buildTopology_on_twice [OF r]
  show "\<exists>h1 st1 h2 st2. buildTopology_on h refs = Some (h1, st1)
            \<and> buildTopology_on h1 refs = Some (h2, st2)
            \<and> componentNodes st1 = componentNodes st2
            \<and> clustersOf h1 (clusters st1) = clustersOf h2 (clusters st2)"
    by (metis (no_types))
qed

theorem validation_deterministic_witness:
  "map_option fst
     (analyzeClick [component ''resistor'' (0, 0) (40, 0)] 2000 8
        \<lparr>analysisErrorTimer = Some 7,
         popupMessage = Some (''Errore di integrit'' @ [CHR 0xE0]
           @ '': componenti/rami scoperti (RESISTOR_1).''),
         clearedTimers = [], draft = None, openedPages = 0\<rparr>)
   = Some (Fail (''Errore di integrit'' @ [CHR 0xE0]
        @ '': componenti/rami scoperti (RESISTOR_1).''))
   \<and> componentNodes (buildTopology [component ''resistor'' (0, 0) (40, 0)])
       = componentNodes (buildTopology [component ''wire'' (0, 0) (40, 0)])"
proof -
  have t: "terminalPoints [component ''resistor'' (0, 0) (40, 0)]
      = terminalPoints [component ''wire'' (0, 0) (40, 0)]"
    by (simp add: terminalPoints_def component_def)
  from validation_deterministic
    [of "[component ''resistor'' (0, 0) (40, 0)]" 1000 7 idleSession 2000 8 _
      "[component ''wire'' (0, 0) (40, 0)]" "[]" "[]"]
    lone_resistor_click t
  show ?thesis by blast
qed

end
